theory Spec2Isabelle
  imports Main "HOL-Library.List_Lexorder" "HOL-Library.Product_Lexorder" "HOL-Library.Char_ord"
begin

section \<open>JavaScript strings\<close>

text \<open>
  Strings are lists of 8-bit characters. The emoji that open some of the messages of
  the source are not representable and are left out of the message texts; nothing else
  in the program depends on characters outside ASCII.
\<close>

text \<open>\<^verbatim>\<open>s.split(c)\<close> for a one-character separator: never the empty array.\<close>

fun split_on :: "char \<Rightarrow> string \<Rightarrow> string list" where
  "split_on c [] = [[]]"
| "split_on c (x # xs) =
     (if x = c then [] # split_on c xs
      else (case split_on c xs of p # ps \<Rightarrow> (x # p) # ps | [] \<Rightarrow> [[x]]))"

text \<open>\<^verbatim>\<open>parts.join(sep)\<close>.\<close>

fun join :: "string \<Rightarrow> string list \<Rightarrow> string" where
  "join sep [] = []"
| "join sep [x] = x"
| "join sep (x # y # ys) = x @ sep @ join sep (y # ys)"

definition is_digit :: "char \<Rightarrow> bool" where
  "is_digit c = (c \<in> set ''0123456789'')"

definition is_letter :: "char \<Rightarrow> bool" where
  "is_letter c = (c \<in> set ''abcdefghijklmnopqrstuvwxyzABCDEFGHIJKLMNOPQRSTUVWXYZ'')"

text \<open>The ASCII part of the regular-expression class \<^verbatim>\<open>\s\<close> (also what \<^verbatim>\<open>trim\<close> strips).\<close>

definition is_space :: "char \<Rightarrow> bool" where
  "is_space c = (c \<in> set [CHR '' '', CHR 0x09, CHR 0x0A, CHR 0x0B, CHR 0x0C, CHR 0x0D])"

definition trim :: "string \<Rightarrow> string" where
  "trim s = rev (dropWhile is_space (rev (dropWhile is_space s)))"

text \<open>The value of a decimal digit: its position among the digits.\<close>

fun position :: "char \<Rightarrow> string \<Rightarrow> int" where
  "position c [] = 0"
| "position c (d # ds) = (if c = d then 0 else 1 + position c ds)"

definition digit_value :: "char \<Rightarrow> int" where
  "digit_value c = position c ''0123456789''"

definition number_of :: "string \<Rightarrow> int" where
  "number_of s = foldl (\<lambda>n c. 10 * n + digit_value c) 0 s"

text \<open>\<^verbatim>\<open>s.lastIndexOf(c)\<close>: the position of the last occurrence, or none (\<^verbatim>\<open>-1\<close>).\<close>

fun lastIndexOf :: "char \<Rightarrow> string \<Rightarrow> nat option" where
  "lastIndexOf c [] = None"
| "lastIndexOf c (x # xs) =
     (case lastIndexOf c xs of
        Some i \<Rightarrow> Some (Suc i)
      | None \<Rightarrow> if x = c then Some 0 else None)"

section \<open>The semver package\<close>

text \<open>
  The program imports the npm package \<^verbatim>\<open>semver\<close>. Its version grammar and precedence
  are modelled here after the package's strict (non-loose) mode: a version is
  \<^verbatim>\<open>v?MAJOR.MINOR.PATCH(-PRERELEASE)?(+BUILD)?\<close>, surrounding white space is trimmed,
  at most 256 characters are accepted, and the three numbers are at most
  \<^verbatim>\<open>Number.MAX_SAFE_INTEGER\<close>. Build metadata does not take part in comparisons.
  Numeric pre-release identifiers are compared as unbounded integers, which is what
  the package does below \<^verbatim>\<open>2^53\<close>.
\<close>

datatype ident = Num int | Alnum string

record semver =
  major :: int
  minor :: int
  patch :: int
  prerelease :: "ident list"

datatype ordering = LT | EQ | GT

definition MAX_SAFE_INTEGER :: int where
  "MAX_SAFE_INTEGER = 9007199254740991"

text \<open>\<^verbatim>\<open>0|[1-9]\d*\<close>\<close>

definition numeric_identifier :: "string \<Rightarrow> bool" where
  "numeric_identifier s =
     (s \<noteq> [] \<and> list_all is_digit s \<and> (length s = 1 \<or> hd s \<noteq> CHR ''0''))"

text \<open>\<^verbatim>\<open>[0-9A-Za-z-]+\<close>\<close>

definition build_identifier :: "string \<Rightarrow> bool" where
  "build_identifier s =
     (s \<noteq> [] \<and> list_all (\<lambda>c. is_digit c \<or> is_letter c \<or> c = CHR ''-'') s)"

text \<open>\<^verbatim>\<open>0|[1-9]\d*|\d*[a-zA-Z-][a-zA-Z0-9-]*\<close>\<close>

definition prerelease_identifier :: "string \<Rightarrow> bool" where
  "prerelease_identifier s =
     (build_identifier s \<and> (if list_all is_digit s then numeric_identifier s else True))"

definition to_ident :: "string \<Rightarrow> ident" where
  "to_ident s = (if list_all is_digit s then Num (number_of s) else Alnum s)"

definition parse_semver :: "string \<Rightarrow> semver option" where
  "parse_semver version =
     (if length version > 256 then None
      else
        let t = trim version;
            s = (case t of c # r \<Rightarrow> if c = CHR ''v'' then r else t | [] \<Rightarrow> t);
            is_core = (\<lambda>c. c \<noteq> CHR ''-'' \<and> c \<noteq> CHR ''+'');
            core = takeWhile is_core s;
            rest = dropWhile is_core s;
            pre = (case rest of
                     c # r \<Rightarrow> if c = CHR ''-''
                             then Some (takeWhile (\<lambda>c. c \<noteq> CHR ''+'') r) else None
                   | [] \<Rightarrow> None);
            build = (case dropWhile (\<lambda>c. c \<noteq> CHR ''+'') rest of
                       c # r \<Rightarrow> Some r
                     | [] \<Rightarrow> None);
            pre_ok = (case pre of
                        Some p \<Rightarrow> list_all prerelease_identifier (split_on CHR ''.'' p)
                      | None \<Rightarrow> True);
            build_ok = (case build of
                          Some b \<Rightarrow> list_all build_identifier (split_on CHR ''.'' b)
                        | None \<Rightarrow> True)
        in (case split_on CHR ''.'' core of
              [a, b, c] \<Rightarrow>
                if numeric_identifier a \<and> numeric_identifier b \<and> numeric_identifier c
                   \<and> number_of a \<le> MAX_SAFE_INTEGER \<and> number_of b \<le> MAX_SAFE_INTEGER
                   \<and> number_of c \<le> MAX_SAFE_INTEGER \<and> pre_ok \<and> build_ok
                then Some \<lparr>major = number_of a, minor = number_of b, patch = number_of c,
                       prerelease = (case pre of
                                       Some p \<Rightarrow> map to_ident (split_on CHR ''.'' p)
                                     | None \<Rightarrow> [])\<rparr>
                else None
            | _ \<Rightarrow> None))"

definition compare_num :: "int \<Rightarrow> int \<Rightarrow> ordering" where
  "compare_num a b = (if a = b then EQ else if a < b then LT else GT)"

text \<open>\<^verbatim>\<open>compareIdentifiers\<close>: numbers before strings, strings by code unit.\<close>

fun compareIdentifiers :: "ident \<Rightarrow> ident \<Rightarrow> ordering" where
  "compareIdentifiers (Num a) (Num b) = compare_num a b"
| "compareIdentifiers (Num a) (Alnum b) = LT"
| "compareIdentifiers (Alnum a) (Num b) = GT"
| "compareIdentifiers (Alnum a) (Alnum b) = (if a = b then EQ else if a < b then LT else GT)"

text \<open>The loop of \<^verbatim>\<open>comparePre\<close> over two non-empty identifier lists.\<close>

fun compare_identifiers :: "ident list \<Rightarrow> ident list \<Rightarrow> ordering" where
  "compare_identifiers [] [] = EQ"
| "compare_identifiers (a # as) [] = GT"
| "compare_identifiers [] (b # bs) = LT"
| "compare_identifiers (a # as) (b # bs) =
     (if a = b then compare_identifiers as bs else compareIdentifiers a b)"

definition comparePre :: "semver \<Rightarrow> semver \<Rightarrow> ordering" where
  "comparePre x y =
     (if prerelease x \<noteq> [] \<and> prerelease y = [] then LT
      else if prerelease x = [] \<and> prerelease y \<noteq> [] then GT
      else if prerelease x = [] \<and> prerelease y = [] then EQ
      else compare_identifiers (prerelease x) (prerelease y))"

definition compareMain :: "semver \<Rightarrow> semver \<Rightarrow> ordering" where
  "compareMain x y =
     (if major x \<noteq> major y then compare_num (major x) (major y)
      else if minor x \<noteq> minor y then compare_num (minor x) (minor y)
      else compare_num (patch x) (patch y))"

definition compare_semver :: "semver \<Rightarrow> semver \<Rightarrow> ordering" where
  "compare_semver x y = (if compareMain x y \<noteq> EQ then compareMain x y else comparePre x y)"

section \<open>Errors\<close>

text \<open>
  Every exception the program can raise. \<open>FetchFailed\<close> stands for a registry response
  that is not ok (the status text of the source's message is not modelled),
  \<open>InvalidVersion\<close> for the \<^verbatim>\<open>TypeError\<close> of the semver package (with the message it
  has for a string that does not match the grammar), \<open>InvalidSpec\<close> for the error of
  \<^verbatim>\<open>splitNameAndVersion\<close>.
\<close>

datatype error = FetchFailed string | InvalidVersion string | InvalidSpec string

fun error_message :: "error \<Rightarrow> string" where
  "error_message (FetchFailed name) = ''Failed to fetch metadata for '' @ name"
| "error_message (InvalidVersion v) = ''Invalid Version: '' @ v"
| "error_message (InvalidSpec spec) = ''Invalid package spec: '' @ spec"

text \<open>
  \<^verbatim>\<open>semver.compare(a, b)\<close> builds both versions, \<open>a\<close> first, and raises on the first that
  does not parse; \<^verbatim>\<open>lt\<close> and \<^verbatim>\<open>gte\<close> are \<^verbatim>\<open>compare(a, b) < 0\<close> and \<^verbatim>\<open>>= 0\<close>.
\<close>

definition semver_compare :: "string \<Rightarrow> string \<Rightarrow> error + ordering" where
  "semver_compare a b =
     (case parse_semver a of
        None \<Rightarrow> Inl (InvalidVersion a)
      | Some x \<Rightarrow>
          (case parse_semver b of
             None \<Rightarrow> Inl (InvalidVersion b)
           | Some y \<Rightarrow> Inr (compare_semver x y)))"

definition semver_lt :: "string \<Rightarrow> string \<Rightarrow> error + bool" where
  "semver_lt a b =
     (case semver_compare a b of Inl e \<Rightarrow> Inl e | Inr c \<Rightarrow> Inr (c = LT))"

definition semver_gte :: "string \<Rightarrow> string \<Rightarrow> error + bool" where
  "semver_gte a b =
     (case semver_compare a b of Inl e \<Rightarrow> Inl e | Inr c \<Rightarrow> Inr (c \<noteq> LT))"

text \<open>
  \<^verbatim>\<open>semver.prerelease(v)\<close>: the pre-release identifiers, or null when there are none or
  \<open>v\<close> does not parse. The program only tests the result for truthiness.
\<close>

definition semver_prerelease :: "string \<Rightarrow> ident list option" where
  "semver_prerelease v =
     (case parse_semver v of
        None \<Rightarrow> None
      | Some x \<Rightarrow> if prerelease x = [] then None else Some (prerelease x))"

definition is_prerelease :: "string \<Rightarrow> bool" where
  "is_prerelease v = (semver_prerelease v \<noteq> None)"

section \<open>Version normalization\<close>

text \<open>
  \<^verbatim>\<open>normalizeVersion\<close>: split at the dots, push \<^verbatim>\<open>"0"\<close> while there are fewer than three
  parts, join again.
\<close>

definition normalizeVersion :: "string \<Rightarrow> string" where
  "normalizeVersion version =
     (let parts = split_on CHR ''.'' version
      in join ''.'' (parts @ replicate (3 - length parts) ''0''))"


section \<open>Data model\<close>

text \<open>
  A JavaScript object used as a dictionary (\<^verbatim>\<open>Record<string, T>\<close>) is an association
  list holding the object's own keys in the order \<^verbatim>\<open>Object.keys\<close> enumerates them; an
  absent object (the source reads \<^verbatim>\<open>x || {}\<close>) is the empty list. The source never
  reads the fields \<^verbatim>\<open>name\<close>, \<^verbatim>\<open>version\<close> and \<^verbatim>\<open>dist-tags\<close> of the registry's answer, so
  they are left out.
\<close>

record VersionRecord =
  dependencies :: "(string \<times> string) list"
  optionalDependencies :: "(string \<times> string) list"
  peerDependencies :: "(string \<times> string) list"

record RegistryPackageMeta =
  versions :: "(string \<times> VersionRecord) list"

record SearchParams =
  parentPackage :: string
  parentMinVersion :: string
  childPackage :: string
  childMinVersion :: string
  packageRemoved :: bool

record DependencyAnalysisResult =
  success :: bool
  message :: string
  details :: "string list"

text \<open>\<^verbatim>\<open>SearchResult\<close> has the three fields above and the optional \<^verbatim>\<open>version\<close>.\<close>

record SearchResult = DependencyAnalysisResult +
  version :: "string option"

record Match =
  pathString :: string
  matchVersion :: string

record TraversalResult =
  matches :: "Match list"
  visitedCount :: nat
  truncated :: bool

text \<open>A queue entry of the traversal: name, version and path from the root.\<close>

type_synonym node = "string \<times> string \<times> string list"

section \<open>The outside world and the module state\<close>

text \<open>
  The program reads the npm registry over the network and asks the semver package
  whether a version satisfies a range. Both are parameters of the model:
  \<open>registry w name\<close> is the registry's answer for a package (\<open>None\<close> when the response
  is not ok), and \<open>satisfies w includePrerelease range v\<close> tells whether the range
  parses and the parsed version \<open>v\<close> is in it, the way \<^verbatim>\<open>Range.test\<close> decides it under the
  option \<^verbatim>\<open>includePrerelease\<close>.
\<close>

record world =
  registry :: "string \<Rightarrow> RegistryPackageMeta option"
  satisfies :: "bool \<Rightarrow> string \<Rightarrow> semver \<Rightarrow> bool"

text \<open>
  What happens during a run, in order: \<open>Fetch\<close> is a request sent to the registry,
  \<open>Checking\<close> the line the orchestrator logs before it analyses a candidate.
  \<open>Visit\<close> and \<open>Expand\<close> are not in the source: they mark the point where the traversal
  goes on with a node after it has added the node's key to the visited set and found the
  set within the ceiling, and the point where it starts to loop over a node's
  dependencies.
\<close>

datatype event =
    Fetch string
  | Checking string
  | Visit string string
  | Expand string string

text \<open>
  The two module-level maps of the source, which live as long as the process, and the
  events so far.
\<close>

record state =
  packageMetaCache :: "string \<rightharpoonup> RegistryPackageMeta"
  versionResolutionCache :: "string \<rightharpoonup> string option"
  trace :: "event list"

definition emit :: "event \<Rightarrow> state \<Rightarrow> state" where
  "emit e st = st\<lparr>trace := trace st @ [e]\<rparr>"

section \<open>Registry access and range resolution\<close>

definition fetchPackageMetadata ::
  "world \<Rightarrow> state \<Rightarrow> string \<Rightarrow> (error + RegistryPackageMeta) \<times> state" where
  "fetchPackageMetadata w st packageName =
     (case packageMetaCache st packageName of
        Some m \<Rightarrow> (Inr m, st)
      | None \<Rightarrow>
          (case registry w packageName of
             None \<Rightarrow> (Inl (FetchFailed packageName), emit (Fetch packageName) st)
           | Some json \<Rightarrow>
               (Inr json,
                (emit (Fetch packageName) st)
                  \<lparr>packageMetaCache := (packageMetaCache st)(packageName \<mapsto> json)\<rparr>)))"

definition splitNameAndVersion :: "string \<Rightarrow> error + string \<times> string" where
  "splitNameAndVersion spec =
     (case lastIndexOf CHR ''@'' spec of
        None \<Rightarrow> Inl (InvalidSpec spec)
      | Some atIndex \<Rightarrow>
          if atIndex \<le> 0 then Inl (InvalidSpec spec)
          else Inr (take atIndex spec, drop (atIndex + 1) spec))"

text \<open>\<^verbatim>\<open>Range.test(v)\<close>: false for a string that is not a version.\<close>

definition range_test :: "world \<Rightarrow> bool \<Rightarrow> string \<Rightarrow> string \<Rightarrow> bool" where
  "range_test w includePrerelease rng v =
     (case parse_semver v of
        None \<Rightarrow> False
      | Some x \<Rightarrow> satisfies w includePrerelease rng x)"

text \<open>
  \<^verbatim>\<open>semver.maxSatisfying(versions, range, options)\<close>: one pass over the list that keeps
  the current maximum and replaces it when it compares below the next version in the
  range.
\<close>

definition maxSatisfying_step ::
  "world \<Rightarrow> bool \<Rightarrow> string \<Rightarrow> string option \<Rightarrow> string \<Rightarrow> string option" where
  "maxSatisfying_step w includePrerelease rng mx v =
     (if range_test w includePrerelease rng v
      then (case mx of
              None \<Rightarrow> Some v
            | Some m \<Rightarrow> if semver_compare m v = Inr LT then Some v else mx)
      else mx)"

definition maxSatisfying :: "world \<Rightarrow> string list \<Rightarrow> string \<Rightarrow> bool \<Rightarrow> string option" where
  "maxSatisfying w vs rng includePrerelease =
     foldl (maxSatisfying_step w includePrerelease rng) None vs"

text \<open>A string or null tested as a condition: null and the empty string are falsy.\<close>

definition truthy :: "string option \<Rightarrow> bool" where
  "truthy x = (case x of None \<Rightarrow> False | Some s \<Rightarrow> s \<noteq> [])"

text \<open>\<^verbatim>\<open>match || null\<close>\<close>

definition or_null :: "string option \<Rightarrow> string option" where
  "or_null x = (if truthy x then x else None)"

definition resolveVersion ::
  "world \<Rightarrow> state \<Rightarrow> string \<Rightarrow> string \<Rightarrow> string option \<times> state" where
  "resolveVersion w st name rng =
     (let key = name @ ''@'' @ rng in
      case versionResolutionCache st key of
        Some cached \<Rightarrow> (cached, st)
      | None \<Rightarrow>
          (case fetchPackageMetadata w st name of
             (Inl e, st1) \<Rightarrow>
               (None, st1\<lparr>versionResolutionCache := (versionResolutionCache st1)(key \<mapsto> None)\<rparr>)
           | (Inr meta, st1) \<Rightarrow>
               let allVersions = map fst (versions meta);
                   stable = filter (\<lambda>v. \<not> is_prerelease v) allVersions;
                   match1 = maxSatisfying w stable rng False;
                   match2 = (if truthy match1 then match1
                             else maxSatisfying w allVersions rng True)
               in (or_null match2,
                   st1\<lparr>versionResolutionCache :=
                         (versionResolutionCache st1)(key \<mapsto> or_null match2)\<rparr>)))"

section \<open>Traversal of the dependency graph\<close>

definition maxNodes :: nat where
  "maxNodes = 3000"

text \<open>
  \<^verbatim>\<open>{...(pkg.dependencies || {}), ...(pkg.optionalDependencies || {})}\<close>: a key of the
  second object overwrites the value of the same key of the first and keeps its place;
  a new key goes to the end. (JavaScript moves keys that are array indices to the
  front; package names are taken not to be such keys.)
\<close>

fun assign :: "(string \<times> string) list \<Rightarrow> string \<times> string \<Rightarrow> (string \<times> string) list" where
  "assign [] kv = [kv]"
| "assign ((k', v') # rest) kv =
     (if k' = fst kv then (k', snd kv) # rest else (k', v') # assign rest kv)"

definition spread :: "(string \<times> string) list \<Rightarrow> (string \<times> string) list \<Rightarrow> (string \<times> string) list" where
  "spread a b = foldl assign (foldl assign [] a) b"

text \<open>
  The inner loop over \<^verbatim>\<open>Object.entries(deps)\<close>: the nodes pushed to the queue, in order.
  A dependency whose resolution is falsy (null or the empty string) is skipped.
\<close>

fun enqueue_deps ::
  "world \<Rightarrow> state \<Rightarrow> string list \<Rightarrow> (string \<times> string) list \<Rightarrow> node list \<times> state" where
  "enqueue_deps w st path [] = ([], st)"
| "enqueue_deps w st path ((depName, depRange) # deps) =
     (case resolveVersion w st depName depRange of
        (resolved, st1) \<Rightarrow>
          (case or_null resolved of
             None \<Rightarrow> enqueue_deps w st1 path deps
           | Some r \<Rightarrow>
               (case enqueue_deps w st1 path deps of
                  (children, st2) \<Rightarrow>
                    ((depName, r, path @ [depName @ ''@'' @ r]) # children, st2))))"

text \<open>
  The \<^verbatim>\<open>while (queue.length)\<close> loop. The visited set is the list of its keys in
  insertion order; a key is only added when it is not yet in it.
\<close>

function traverse ::
  "world \<Rightarrow> string \<Rightarrow> state \<Rightarrow> node list \<Rightarrow> string list \<Rightarrow> Match list
     \<Rightarrow> TraversalResult \<times> state" where
  "traverse w targetName st [] visited found =
     (\<lparr>matches = found, visitedCount = length visited, truncated = False\<rparr>, st)"
| "traverse w targetName st ((name, ver, path) # queue) visited found =
     (let key = name @ ''@'' @ ver in
      if key \<in> set visited then traverse w targetName st queue visited found
      else if length (visited @ [key]) > maxNodes
      then (\<lparr>matches = found, visitedCount = length (visited @ [key]), truncated = True\<rparr>, st)
      else if name = targetName
      then traverse w targetName (emit (Visit name ver) st) queue (visited @ [key])
             (found @ [\<lparr>pathString = join '' > '' path, matchVersion = ver\<rparr>])
      else
        (case fetchPackageMetadata w (emit (Visit name ver) st) name of
           (Inl e, st1) \<Rightarrow> traverse w targetName st1 queue (visited @ [key]) found
         | (Inr meta, st1) \<Rightarrow>
             (case map_of (versions meta) ver of
                None \<Rightarrow> traverse w targetName st1 queue (visited @ [key]) found
              | Some pkg \<Rightarrow>
                  (case enqueue_deps w (emit (Expand name ver) st1) path
                          (spread (dependencies pkg) (optionalDependencies pkg)) of
                     (children, st2) \<Rightarrow>
                       traverse w targetName st2 (queue @ children) (visited @ [key]) found))))"
  by pat_completeness auto
termination
  by (relation "measures [\<lambda>(w, t, st, queue, visited, found). Suc maxNodes - length visited,
                          \<lambda>(w, t, st, queue, visited, found). length queue]") auto

declare traverse.simps [simp del]

definition findChildOccurrencesInTree ::
  "world \<Rightarrow> state \<Rightarrow> string \<Rightarrow> string \<Rightarrow> string \<Rightarrow> TraversalResult \<times> state" where
  "findChildOccurrencesInTree w st rootName rootVersion targetName =
     traverse w targetName st [(rootName, rootVersion, [rootName @ ''@'' @ rootVersion])] [] []"

section \<open>Version analysis of the occurrence lines\<close>

text \<open>
  \<^verbatim>\<open>analyzeVersionRequirements\<close> builds the regular expression
  \<^verbatim>\<open>${childPackage}@([\d\.]+(?:-[\w\.]+)*)\<close> and takes the first match in the line.
  The package name is spliced in unescaped. The model reads it the way the regular
  expression engine does for names without the metacharacters
  \<^verbatim>\<open>\ ^ $ * + ? ( ) [ ] { } |\<close> (\<open>plain_name\<close>): every character stands for itself,
  except the dot, which matches any character but a line terminator.
\<close>

definition plain_name :: "string \<Rightarrow> bool" where
  "plain_name s =
     list_all (\<lambda>c. c \<notin> set [CHR 0x5C, CHR ''^'', CHR ''$'', CHR ''*'', CHR ''+'', CHR ''?'',
                               CHR ''('', CHR '')'', CHR ''['', CHR '']'', CHR ''{'', CHR ''}'',
                               CHR ''|'']) s"

definition pattern_char :: "char \<Rightarrow> char \<Rightarrow> bool" where
  "pattern_char p c = (if p = CHR ''.'' then c \<noteq> CHR 0x0A \<and> c \<noteq> CHR 0x0D else p = c)"

text \<open>The name pattern at the start of a string: what follows it, if it matches.\<close>

fun match_name :: "string \<Rightarrow> string \<Rightarrow> string option" where
  "match_name [] s = Some s"
| "match_name (p # ps) [] = None"
| "match_name (p # ps) (c # cs) = (if pattern_char p c then match_name ps cs else None)"

text \<open>\<^verbatim>\<open>[\d\.]\<close> and \<^verbatim>\<open>[\w\.]\<close>\<close>

definition digit_or_dot :: "char \<Rightarrow> bool" where
  "digit_or_dot c = (is_digit c \<or> c = CHR ''.'')"

definition word_or_dot :: "char \<Rightarrow> bool" where
  "word_or_dot c = (is_digit c \<or> is_letter c \<or> c = CHR ''_'' \<or> c = CHR ''.'')"

text \<open>\<^verbatim>\<open>(?:-[\w\.]+)*\<close> at the start of a string, greedy: the text it consumes.\<close>

function capture_groups :: "string \<Rightarrow> string" where
  "capture_groups [] = []"
| "capture_groups [c] = []"
| "capture_groups (c # d # r) =
     (if c = CHR ''-'' \<and> word_or_dot d
      then c # d # takeWhile word_or_dot r @ capture_groups (dropWhile word_or_dot r)
      else [])"
  by pat_completeness auto
termination
  by (relation "measure length") (auto simp: less_Suc_eq_le intro: le_trans [OF length_dropWhile_le])

text \<open>\<^verbatim>\<open>([\d\.]+(?:-[\w\.]+)*)\<close> at the start of a string: the captured text.\<close>

definition capture_version :: "string \<Rightarrow> string option" where
  "capture_version s =
     (if takeWhile digit_or_dot s = [] then None
      else Some (takeWhile digit_or_dot s @ capture_groups (dropWhile digit_or_dot s)))"

definition match_at :: "string \<Rightarrow> string \<Rightarrow> string option" where
  "match_at child s =
     (case match_name child s of
        None \<Rightarrow> None
      | Some [] \<Rightarrow> None
      | Some (c # r) \<Rightarrow> if c = CHR ''@'' then capture_version r else None)"

text \<open>\<^verbatim>\<open>line.match(re)\<close>: the capture of the leftmost match, or none.\<close>

fun line_match :: "string \<Rightarrow> string \<Rightarrow> string option" where
  "line_match child [] = match_at child []"
| "line_match child (c # cs) =
     (case match_at child (c # cs) of
        Some v \<Rightarrow> Some v
      | None \<Rightarrow> line_match child cs)"

record VersionAnalysis =
  allValid :: bool
  invalidVersions :: "string list"

text \<open>The loop of \<^verbatim>\<open>analyzeVersionRequirements\<close> over the lines.\<close>

fun analyze_lines ::
  "string \<Rightarrow> string \<Rightarrow> string list \<Rightarrow> VersionAnalysis \<Rightarrow> error + VersionAnalysis" where
  "analyze_lines child minVersion [] acc = Inr acc"
| "analyze_lines child minVersion (line # lines) acc =
     (case line_match child line of
        None \<Rightarrow> analyze_lines child minVersion lines acc
      | Some depVersion \<Rightarrow>
          if minVersion = [] then analyze_lines child minVersion lines acc
          else
            (case semver_lt (normalizeVersion depVersion) (normalizeVersion minVersion) of
               Inl e \<Rightarrow> Inl e
             | Inr older \<Rightarrow>
                 if older
                 then analyze_lines child minVersion lines
                        \<lparr>allValid = False, invalidVersions = invalidVersions acc @ [line]\<rparr>
                 else analyze_lines child minVersion lines acc))"

definition analyzeVersionRequirements ::
  "string list \<Rightarrow> string \<Rightarrow> string \<Rightarrow> error + VersionAnalysis" where
  "analyzeVersionRequirements dependencyLines child minVersion =
     analyze_lines child minVersion dependencyLines
       \<lparr>allValid = True, invalidVersions = []\<rparr>"

section \<open>The compatibility verdict\<close>

definition quoted :: "string \<Rightarrow> string" where
  "quoted s = [CHR 0x27] @ s @ [CHR 0x27]"

text \<open>
  \<^verbatim>\<open>analyzePackageDependencies\<close> from the test of \<^verbatim>\<open>dependencyLines.length\<close> on: the verdict
  for the lines the traversal found.
\<close>

definition evaluate ::
  "string list \<Rightarrow> string \<Rightarrow> string \<Rightarrow> string \<Rightarrow> bool \<Rightarrow> error + DependencyAnalysisResult" where
  "evaluate dependencyLines parentVersion child childMin removed =
     (if dependencyLines = []
      then
        (if removed
         then Inr \<lparr>success = True,
                message = ''SUCCESS: Version '' @ parentVersion @ '' does not depend on ''
                  @ quoted child
                  @ '' anywhere in its dependency tree (package removed condition satisfied).'',
                details = [''Package '' @ quoted child
                  @ '' is not found in the dependency tree'']\<rparr>
         else Inr \<lparr>success = False,
                message = ''Package '' @ quoted child @ '' not found in dependency tree'',
                details = []\<rparr>)
      else if removed
      then
        (if childMin \<noteq> []
         then
           (case analyzeVersionRequirements dependencyLines child childMin of
              Inl e \<Rightarrow> Inl e
            | Inr versionAnalysis \<Rightarrow>
                if allValid versionAnalysis
                then Inr \<lparr>success = True,
                       message = ''SUCCESS: Version '' @ parentVersion @ '' - ALL instances of ''
                         @ quoted child @ '' meet the minimum version requirement (>= ''
                         @ childMin @ '') - minimum version condition satisfied.'',
                       details = dependencyLines\<rparr>
                else Inr \<lparr>success = False,
                       message = ''Package '' @ quoted child
                         @ '' exists but doesn'' @ [CHR 0x27] @ ''t meet minimum version requirement. ''
                         @ ''Need EITHER package removal OR version >= '' @ childMin @ ''.'',
                       details = invalidVersions versionAnalysis\<rparr>)
         else Inr \<lparr>success = False,
                message = ''Package '' @ quoted child
                  @ '' still exists in dependency tree (package removal condition not satisfied).'',
                details = dependencyLines\<rparr>)
      else
        (case analyzeVersionRequirements dependencyLines child childMin of
           Inl e \<Rightarrow> Inl e
         | Inr versionAnalysis \<Rightarrow>
             if allValid versionAnalysis
             then Inr \<lparr>success = True,
                    message = ''SUCCESS: Version '' @ parentVersion @ '' - ALL instances of ''
                      @ quoted child @ '' meet the minimum version requirement (>= ''
                      @ childMin @ '').'',
                    details = dependencyLines\<rparr>
             else Inr \<lparr>success = False,
                    message = ''Some instances of '' @ quoted child
                      @ '' are older than required:'',
                    details = invalidVersions versionAnalysis\<rparr>))"

definition analyzePackageDependencies ::
  "world \<Rightarrow> state \<Rightarrow> string \<Rightarrow> string \<Rightarrow> string \<Rightarrow> bool
     \<Rightarrow> (error + DependencyAnalysisResult) \<times> state" where
  "analyzePackageDependencies w st parentPackageVersion child childMin
       removed =
     (case splitNameAndVersion parentPackageVersion of
        Inl e \<Rightarrow> (Inl e, st)
      | Inr (parentName, parentVersion) \<Rightarrow>
          (case findChildOccurrencesInTree w st parentName parentVersion child of
             (traversal, st1) \<Rightarrow>
               (evaluate (map pathString (matches traversal)) parentVersion child
                  childMin removed,
                st1)))"

section \<open>The search\<close>

text \<open>
  \<^verbatim>\<open>versions.sort(semver.compare)\<close>. An array of fewer than two elements is returned as
  it is, without a call of the comparison. Otherwise every element is compared at least
  once, so a string that is not a version makes the comparison raise (the version named
  in the error depends on the engine's sorting algorithm; the model names the first one
  of the array); on versions the comparison is a total preorder and the sort is stable,
  which an insertion sort is.
\<close>

fun insert_version :: "string \<Rightarrow> string list \<Rightarrow> string list" where
  "insert_version v [] = [v]"
| "insert_version v (u # us) =
     (if semver_compare v u = Inr GT then u # insert_version v us else v # u # us)"

definition sort_versions :: "string list \<Rightarrow> error + string list" where
  "sort_versions vs =
     (if length vs < 2 then Inr vs
      else
        (case filter (\<lambda>v. parse_semver v = None) vs of
           bad # _ \<Rightarrow> Inl (InvalidVersion bad)
         | [] \<Rightarrow> Inr (foldr insert_version vs [])))"

definition getPackageVersions ::
  "world \<Rightarrow> state \<Rightarrow> string \<Rightarrow> (error + string list) \<times> state" where
  "getPackageVersions w st packageName =
     (case fetchPackageMetadata w st packageName of
        (Inl e, st1) \<Rightarrow> (Inl e, st1)
      | (Inr meta, st1) \<Rightarrow> (sort_versions (map fst (versions meta)), st1))"

text \<open>
  The filter by \<^verbatim>\<open>parentMinVersion\<close>: an empty floor keeps everything, otherwise
  \<^verbatim>\<open>semver.gte\<close> decides on the normalized strings and may raise.
\<close>

definition meets_floor :: "string \<Rightarrow> string \<Rightarrow> error + bool" where
  "meets_floor floor v =
     (if floor = [] then Inr True
      else semver_gte (normalizeVersion v) (normalizeVersion floor))"

fun filter_versions :: "string \<Rightarrow> string list \<Rightarrow> error + string list" where
  "filter_versions floor [] = Inr []"
| "filter_versions floor (v # vs) =
     (case meets_floor floor v of
        Inl e \<Rightarrow> Inl e
      | Inr keep \<Rightarrow>
          (case filter_versions floor vs of
             Inl e \<Rightarrow> Inl e
           | Inr rest \<Rightarrow> Inr (if keep then v # rest else rest)))"

text \<open>
  The versions the two loops of \<^verbatim>\<open>findCompatibleVersion\<close> go through, in order, for the
  keys of the parent's manifest: sorted, filtered by the floor, the versions without a
  pre-release tag first.
\<close>

definition candidates :: "string \<Rightarrow> string list \<Rightarrow> error + string list" where
  "candidates floor keys =
     (case sort_versions keys of
        Inl e \<Rightarrow> Inl e
      | Inr vs \<Rightarrow>
          (case filter_versions floor vs of
             Inl e \<Rightarrow> Inl e
           | Inr filteredVersions \<Rightarrow>
               Inr (filter (\<lambda>v. \<not> is_prerelease v) filteredVersions
                    @ filter is_prerelease filteredVersions)))"

text \<open>
  \<^verbatim>\<open>message.replace(/Version ([^\s]+)/, `Version $1${versionType}`)\<close>: the first place
  where \<^verbatim>\<open>Version\<close>, a blank and at least one character that is not white space stand
  gets the version type appended to that run of characters.
\<close>

fun strip_prefix :: "string \<Rightarrow> string \<Rightarrow> string option" where
  "strip_prefix [] s = Some s"
| "strip_prefix (p # ps) [] = None"
| "strip_prefix (p # ps) (c # cs) = (if p = c then strip_prefix ps cs else None)"

definition version_match :: "string \<Rightarrow> string option" where
  "version_match s =
     (case strip_prefix ''Version '' s of
        None \<Rightarrow> None
      | Some r \<Rightarrow> if takeWhile (\<lambda>c. \<not> is_space c) r = [] then None else Some r)"

fun replace_version :: "string \<Rightarrow> string \<Rightarrow> string" where
  "replace_version versionType [] = []"
| "replace_version versionType (c # cs) =
     (case version_match (c # cs) of
        Some r \<Rightarrow>
          ''Version '' @ takeWhile (\<lambda>c. \<not> is_space c) r @ versionType
            @ dropWhile (\<lambda>c. \<not> is_space c) r
      | None \<Rightarrow> c # replace_version versionType cs)"

definition failure :: "string \<Rightarrow> SearchResult" where
  "failure msg = \<lparr>success = False, message = msg, details = [], version = None\<rparr>"

text \<open>
  The body of the loop over the versions of one group logs the candidate and analyses
  it. The result of the loop is an exception, the
  \<^verbatim>\<open>SearchResult\<close> returned from inside the loop, or nothing when the loop runs to its
  end. An empty group is skipped by the source before the loop, which is the same as
  running the loop on it.
\<close>

definition analyze_candidate ::
  "world \<Rightarrow> state \<Rightarrow> SearchParams \<Rightarrow> string
     \<Rightarrow> (error + DependencyAnalysisResult) \<times> state" where
  "analyze_candidate w st params v =
     analyzePackageDependencies w
       (emit (Checking (parentPackage params @ ''@'' @ v)) st)
       (parentPackage params @ ''@'' @ v)
       (childPackage params) (childMinVersion params) (packageRemoved params)"

fun check_versions ::
  "world \<Rightarrow> state \<Rightarrow> SearchParams \<Rightarrow> string \<Rightarrow> string list
     \<Rightarrow> (error + SearchResult option) \<times> state" where
  "check_versions w st params groupType [] = (Inr None, st)"
| "check_versions w st params groupType (v # vs) =
     (case analyze_candidate w st params v of
        (Inl e, st1) \<Rightarrow> (Inl e, st1)
      | (Inr dependencyResult, st1) \<Rightarrow>
          if success dependencyResult
          then (Inr (Some
                  \<lparr>success = True,
                   message = replace_version
                     (if groupType = ''stable'' then '' (stable release)'' else '' (pre-release)'')
                     (message dependencyResult),
                   details = details dependencyResult,
                   version = Some v\<rparr>), st1)
          else check_versions w st1 params groupType vs)"

text \<open>The body of the \<^verbatim>\<open>try\<close> block of \<^verbatim>\<open>findCompatibleVersion\<close>.\<close>

definition search :: "world \<Rightarrow> state \<Rightarrow> SearchParams \<Rightarrow> (error + SearchResult) \<times> state" where
  "search w st params =
     (case getPackageVersions w st (parentPackage params) of
        (Inl e, st1) \<Rightarrow> (Inl e, st1)
      | (Inr vs, st1) \<Rightarrow>
          if vs = []
          then (Inr (failure (''No versions found for package '' @ quoted (parentPackage params))),
                st1)
          else
            (case filter_versions (parentMinVersion params) vs of
               Inl e \<Rightarrow> (Inl e, st1)
             | Inr filteredVersions \<Rightarrow>
                 if filteredVersions = []
                 then (Inr (failure (''No versions of '' @ quoted (parentPackage params)
                              @ '' found that are >= '' @ parentMinVersion params)),
                       st1)
                 else
                   (case check_versions w st1 params ''stable''
                           (filter (\<lambda>v. \<not> is_prerelease v) filteredVersions) of
                      (Inl e, st2) \<Rightarrow> (Inl e, st2)
                    | (Inr (Some r), st2) \<Rightarrow> (Inr r, st2)
                    | (Inr None, st2) \<Rightarrow>
                        (case check_versions w st2 params ''pre-release''
                                (filter is_prerelease filteredVersions) of
                           (Inl e, st3) \<Rightarrow> (Inl e, st3)
                         | (Inr (Some r), st3) \<Rightarrow> (Inr r, st3)
                         | (Inr None, st3) \<Rightarrow>
                             (Inr (failure
                                ''No compatible version found for the given requirements''),
                              st3)))))"

definition findCompatibleVersion ::
  "world \<Rightarrow> state \<Rightarrow> SearchParams \<Rightarrow> SearchResult \<times> state" where
  "findCompatibleVersion w st params =
     (case search w st params of
        (Inl e, st1) \<Rightarrow> (failure (''Error during search: '' @ error_message e), st1)
      | (Inr r, st1) \<Rightarrow> (r, st1))"

section \<open>The HTTP route\<close>

text \<open>
  \<^verbatim>\<open>POST\<close> of the search route. A missing field of the request body is the empty
  string. The handler's own \<^verbatim>\<open>catch\<close> (status 500) covers a body that is not JSON,
  which is outside the model.
\<close>

datatype response = BadRequest string | Json SearchResult

definition POST :: "world \<Rightarrow> state \<Rightarrow> SearchParams \<Rightarrow> response \<times> state" where
  "POST w st body =
     (if parentPackage body = [] \<or> childPackage body = []
      then (BadRequest ''Parent package and child package are required'', st)
      else if \<not> packageRemoved body \<and> childMinVersion body = []
      then (BadRequest
              ''Child minimum version is required when package is not marked as removed'', st)
      else
        (case findCompatibleVersion w st body of
           (result, st1) \<Rightarrow> (Json result, st1)))"

section \<open>Concrete registries\<close>

text \<open>
  A range semantics for the examples: \<^verbatim>\<open>*\<close> is satisfied by every version without a
  pre-release tag (by every version when pre-releases are included), and a range that
  is itself a version is satisfied by the versions that compare equal to it. This is
  how the semver package reads these two kinds of range; no other range occurs in the
  examples.
\<close>

definition exact_or_any :: "bool \<Rightarrow> string \<Rightarrow> semver \<Rightarrow> bool" where
  "exact_or_any includePrerelease rng v =
     (if rng = ''*'' then includePrerelease \<or> prerelease v = []
      else (case parse_semver rng of
              None \<Rightarrow> False
            | Some r \<Rightarrow> compare_semver v r = EQ))"

text \<open>The state of a process that has not searched yet.\<close>

definition fresh :: state where
  "fresh = \<lparr>packageMetaCache = Map.empty, versionResolutionCache = Map.empty, trace = []\<rparr>"

definition no_deps :: VersionRecord where
  "no_deps = \<lparr>dependencies = [], optionalDependencies = [], peerDependencies = []\<rparr>"

definition depends_on :: "(string \<times> string) list \<Rightarrow> VersionRecord" where
  "depends_on ds = \<lparr>dependencies = ds, optionalDependencies = [], peerDependencies = []\<rparr>"

text \<open>
  \<^verbatim>\<open>my-lib@1.0.0\<close> depends on \<^verbatim>\<open>lib@5.0.0\<close>: the name of the parent ends with the name of
  the target.
\<close>

definition suffix_world :: world where
  "suffix_world =
     \<lparr>registry = (\<lambda>n.
        if n = ''my-lib'' then Some \<lparr>versions = [(''1.0.0'', depends_on [(''lib'', ''5.0.0'')])]\<rparr>
        else if n = ''lib'' then Some \<lparr>versions = [(''4.0.0'', no_deps), (''5.0.0'', no_deps)]\<rparr>
        else None),
      satisfies = exact_or_any\<rparr>"

text \<open>\<^verbatim>\<open>my-lib@5.0.0\<close> depends on \<^verbatim>\<open>lib@1.0.0\<close>.\<close>

definition suffix_world_old :: world where
  "suffix_world_old =
     \<lparr>registry = (\<lambda>n.
        if n = ''my-lib'' then Some \<lparr>versions = [(''5.0.0'', depends_on [(''lib'', ''1.0.0'')])]\<rparr>
        else if n = ''lib'' then Some \<lparr>versions = [(''1.0.0'', no_deps)]\<rparr>
        else None),
      satisfies = exact_or_any\<rparr>"

text \<open>
  \<^verbatim>\<open>app\<close> has three releases and a release candidate; from \<^verbatim>\<open>2.0.0\<close> on it depends on
  \<^verbatim>\<open>dep@2.0.0\<close>, before on \<^verbatim>\<open>dep@1.0.0\<close>.
\<close>

definition upgrade_world :: world where
  "upgrade_world =
     \<lparr>registry = (\<lambda>n.
        if n = ''app''
        then Some \<lparr>versions =
               [(''2.0.0'', depends_on [(''dep'', ''2.0.0'')]),
                (''1.0.0'', depends_on [(''dep'', ''1.0.0'')]),
                (''3.0.0'', depends_on [(''dep'', ''2.0.0'')]),
                (''2.0.0-rc.1'', depends_on [(''dep'', ''1.0.0'')])]\<rparr>
        else if n = ''dep''
        then Some \<lparr>versions = [(''1.0.0'', no_deps), (''2.0.0'', no_deps)]\<rparr>
        else None),
      satisfies = exact_or_any\<rparr>"

definition upgrade_params :: SearchParams where
  "upgrade_params =
     \<lparr>parentPackage = ''app'', parentMinVersion = [], childPackage = ''dep'',
      childMinVersion = ''2.0.0'', packageRemoved = False\<rparr>"

text \<open>A request without the name of the target package.\<close>

definition no_child_params :: SearchParams where
  "no_child_params =
     \<lparr>parentPackage = ''my-lib'', parentMinVersion = [], childPackage = [],
      childMinVersion = ''1.0.0'', packageRemoved = False\<rparr>"

text \<open>A request for a parent package that the registries of the examples do not have.\<close>

definition missing_parent_params :: SearchParams where
  "missing_parent_params =
     \<lparr>parentPackage = ''nothing'', parentMinVersion = [], childPackage = ''lib'',
      childMinVersion = ''1.0.0'', packageRemoved = False\<rparr>"

text \<open>
  A state whose resolution cache knows a version of a package that the registry does
  not serve.
\<close>

definition stale :: state where
  "stale = fresh\<lparr>versionResolutionCache := [''gone@*'' \<mapsto> Some ''1.0.0'']\<rparr>"

text \<open>
  \<^verbatim>\<open>app@1.0.0\<close> depends on \<^verbatim>\<open>gone\<close>, which the registry does not have, and on
  \<^verbatim>\<open>dep@2.0.0\<close>.
\<close>

definition flaky_world :: world where
  "flaky_world =
     \<lparr>registry = (\<lambda>n.
        if n = ''app''
        then Some \<lparr>versions = [(''1.0.0'', depends_on [(''gone'', ''*''), (''dep'', ''2.0.0'')])]\<rparr>
        else if n = ''dep'' then Some \<lparr>versions = [(''2.0.0'', no_deps)]\<rparr>
        else None),
      satisfies = exact_or_any\<rparr>"

text \<open>A request in min-version mode without a minimum, as the command line can send it.\<close>

definition any_version_params :: SearchParams where
  "any_version_params =
     \<lparr>parentPackage = ''app'', parentMinVersion = [], childPackage = ''dep'',
      childMinVersion = [], packageRemoved = False\<rparr>"

text \<open>
  A diamond: \<^verbatim>\<open>top\<close> depends on \<^verbatim>\<open>left\<close> and \<^verbatim>\<open>right\<close>, both depend on \<^verbatim>\<open>shared\<close>, which
  depends on \<^verbatim>\<open>target\<close>, which depends on \<^verbatim>\<open>deep\<close>.
\<close>

definition diamond_world :: world where
  "diamond_world =
     \<lparr>registry = (\<lambda>n.
        if n = ''top''
        then Some \<lparr>versions = [(''1.0.0'', depends_on [(''left'', ''*''), (''right'', ''*'')])]\<rparr>
        else if n = ''left'' \<or> n = ''right''
        then Some \<lparr>versions = [(''1.0.0'', depends_on [(''shared'', ''*'')])]\<rparr>
        else if n = ''shared''
        then Some \<lparr>versions = [(''1.0.0'', depends_on [(''target'', ''*'')])]\<rparr>
        else if n = ''target''
        then Some \<lparr>versions = [(''1.0.0'', depends_on [(''deep'', ''*'')])]\<rparr>
        else if n = ''deep'' then Some \<lparr>versions = [(''1.0.0'', no_deps)]\<rparr>
        else None),
      satisfies = exact_or_any\<rparr>"

text \<open>\<^verbatim>\<open>pre\<close> has only pre-release versions.\<close>

definition prerelease_world :: world where
  "prerelease_world =
     \<lparr>registry = (\<lambda>n.
        if n = ''pre''
        then Some \<lparr>versions = [(''1.0.0-beta'', no_deps), (''1.0.0-alpha'', no_deps)]\<rparr>
        else None),
      satisfies = exact_or_any\<rparr>"

text \<open>
  A chain of 3001 packages: the names are \<^verbatim>\<open>x\<close>, \<^verbatim>\<open>xx\<close>, and so on up to 3001 letters,
  each with the one version \<^verbatim>\<open>1.0.0\<close> and a dependency on the name that is one letter
  longer.
\<close>

definition chain_name :: "string \<Rightarrow> bool" where
  "chain_name n = (n \<noteq> [] \<and> list_all (\<lambda>c. c = CHR ''x'') n \<and> length n \<le> 3001)"

definition chain_meta :: "string \<Rightarrow> RegistryPackageMeta" where
  "chain_meta n = \<lparr>versions = [(''1.0.0'', depends_on [(n @ ''x'', ''*'')])]\<rparr>"




section \<open>Notions used in the statements\<close>

text \<open>
  A string is valid when it parses as a version. The comparison of two versions is the
  comparison of their keys in the lexicographic order; \<open>precedes a b\<close> says that both
  strings are valid and \<open>a\<close> does not come after \<open>b\<close>.
\<close>

fun ident_key :: "ident \<Rightarrow> bool \<times> int \<times> string" where
  "ident_key (Num n) = (False, n, [])"
| "ident_key (Alnum s) = (True, 0, s)"

definition semver_key :: "semver \<Rightarrow> int \<times> int \<times> int \<times> bool \<times> (bool \<times> int \<times> string) list" where
  "semver_key x = (major x, minor x, patch x, prerelease x = [], map ident_key (prerelease x))"

definition by_key :: "'a::linorder \<Rightarrow> 'a \<Rightarrow> ordering" where
  "by_key a b = (if a < b then LT else if a = b then EQ else GT)"

definition valid :: "string \<Rightarrow> bool" where
  "valid v = (parse_semver v \<noteq> None)"

definition version_key :: "string \<Rightarrow> int \<times> int \<times> int \<times> bool \<times> (bool \<times> int \<times> string) list" where
  "version_key v = (case parse_semver v of Some x \<Rightarrow> semver_key x | None \<Rightarrow> (0, 0, 0, False, []))"

definition precedes :: "string \<Rightarrow> string \<Rightarrow> bool" where
  "precedes a b = (semver_compare a b = Inr LT \<or> semver_compare a b = Inr EQ)"

text \<open>
  What the version analysis checks of a line: the version of the line's first match,
  if there is one, is at least the minimum.
\<close>

definition line_meets :: "string \<Rightarrow> string \<Rightarrow> string \<Rightarrow> bool" where
  "line_meets child minVersion line =
     (case line_match child line of
        None \<Rightarrow> True
      | Some depVersion \<Rightarrow>
          semver_gte (normalizeVersion depVersion) (normalizeVersion minVersion) = Inr True)"

text \<open>The candidates a run has logged, in order.\<close>

definition checked :: "state \<Rightarrow> string list" where
  "checked st = concat (map (\<lambda>e. case e of Checking s \<Rightarrow> [s] | _ \<Rightarrow> []) (trace st))"

text \<open>
  The state after the candidates of a list have been analysed one after the other and
  every one of them was rejected: none when one of them succeeds or raises.
\<close>

fun reject_all :: "world \<Rightarrow> state \<Rightarrow> SearchParams \<Rightarrow> string list \<Rightarrow> state option" where
  "reject_all w st params [] = Some st"
| "reject_all w st params (v # vs) =
     (case analyze_candidate w st params v of
        (Inl e, st1) \<Rightarrow> None
      | (Inr d, st1) \<Rightarrow> if success d then None else reject_all w st1 params vs)"

text \<open>The result the search returns for an accepted candidate.\<close>

definition accepted :: "string \<Rightarrow> string \<Rightarrow> DependencyAnalysisResult \<Rightarrow> SearchResult" where
  "accepted versionType v d =
     \<lparr>success = True, message = replace_version versionType (message d),
      details = details d, version = Some v\<rparr>"

text \<open>
  The first version of a list, in order, whose traversal finds an occurrence of the
  target, together with the state after that traversal; the candidate is logged before
  its traversal, as in the search.
\<close>

fun first_with_occurrence ::
  "world \<Rightarrow> state \<Rightarrow> string \<Rightarrow> string \<Rightarrow> string list \<Rightarrow> string option \<times> state" where
  "first_with_occurrence w st parent child [] = (None, st)"
| "first_with_occurrence w st parent child (v # vs) =
     (case findChildOccurrencesInTree w (emit (Checking (parent @ ''@'' @ v)) st) parent v child of
        (traversal, st1) \<Rightarrow>
          if matches traversal \<noteq> [] then (Some v, st1)
          else first_with_occurrence w st1 parent child vs)"

text \<open>
  The nodes a run has gone on with after marking them visited, and the nodes whose
  dependencies it has looped over, in order. The key of a node in the visited set.
\<close>

definition visited_nodes :: "state \<Rightarrow> (string \<times> string) list" where
  "visited_nodes st = concat (map (\<lambda>e. case e of Visit n v \<Rightarrow> [(n, v)] | _ \<Rightarrow> []) (trace st))"

definition expanded_nodes :: "state \<Rightarrow> (string \<times> string) list" where
  "expanded_nodes st = concat (map (\<lambda>e. case e of Expand n v \<Rightarrow> [(n, v)] | _ \<Rightarrow> []) (trace st))"

definition node_key :: "string \<times> string \<Rightarrow> string" where
  "node_key nv = fst nv @ ''@'' @ snd nv"

text \<open>
  \<open>m\<close> is a maximum of the versions of a list that are in a range: it is one of them,
  and every one of them precedes it or is equal to it in precedence.
\<close>

definition is_maximum :: "world \<Rightarrow> bool \<Rightarrow> string \<Rightarrow> string list \<Rightarrow> string \<Rightarrow> bool" where
  "is_maximum w includePrerelease rng vs m =
     (m \<in> set vs \<and> range_test w includePrerelease rng m
      \<and> list_all (\<lambda>v. range_test w includePrerelease rng v \<longrightarrow> precedes v m) vs)"

text \<open>
  The caches hold nothing but what the chain registry answers; the key of the \<open>j\<close>-th
  package of the chain in the visited set.
\<close>

definition chain_caches :: "state \<Rightarrow> bool" where
  "chain_caches st =
     ((\<forall>n m. packageMetaCache st n = Some m \<longrightarrow> chain_name n \<and> m = chain_meta n)
      \<and> (\<forall>n c. chain_name n \<longrightarrow> versionResolutionCache st (n @ ''@*'') = Some c
             \<longrightarrow> c = Some ''1.0.0''))"


section \<open>Basic facts\<close>

lemma split_on_not_Nil [simp]: "split_on c s \<noteq> []"
  by (induction s) (auto split: list.splits)

lemma normalizeVersion_cases:
  "normalizeVersion v =
     (case split_on CHR ''.'' v of
        [a] \<Rightarrow> a @ ''.0.0''
      | [a, b] \<Rightarrow> a @ ''.'' @ b @ ''.0''
      | parts \<Rightarrow> join ''.'' parts)"
  by (simp add: normalizeVersion_def numeral_3_eq_3 split: list.splits)

section \<open>Precedence is a total preorder\<close>

text \<open>
  The comparison of the semver model agrees with the lexicographic order of a key, so
  it is reflexive, transitive and total on the strings that parse.
\<close>

lemma ident_key_inj: "ident_key a = ident_key b \<longleftrightarrow> a = b"
  by (cases a; cases b) auto

lemma compareIdentifiers_key: "compareIdentifiers a b = by_key (ident_key a) (ident_key b)"
  by (cases a; cases b) (auto simp: by_key_def compare_num_def)

lemma compare_identifiers_key:
  "compare_identifiers xs ys = by_key (map ident_key xs) (map ident_key ys)"
proof (induction xs ys rule: compare_identifiers.induct)
  case (4 a as b bs)
  show ?case
  proof (cases "a = b")
    case True
    with 4 show ?thesis by (simp add: by_key_def)
  next
    case False
    then have "ident_key a \<noteq> ident_key b" by (simp add: ident_key_inj)
    with False show ?thesis
      by (auto simp: compareIdentifiers_key by_key_def)
  qed
qed (simp_all add: by_key_def)

lemma compare_semver_key: "compare_semver x y = by_key (semver_key x) (semver_key y)"
  by (auto simp: compare_semver_def compareMain_def comparePre_def compare_num_def
      compare_identifiers_key by_key_def semver_key_def)

lemma semver_compare_valid:
  "valid a \<Longrightarrow> valid b \<Longrightarrow> semver_compare a b = Inr (by_key (version_key a) (version_key b))"
  by (auto simp: valid_def semver_compare_def version_key_def compare_semver_key)

lemma semver_compare_Inr: "semver_compare a b = Inr c \<Longrightarrow> valid a \<and> valid b"
  by (auto simp: valid_def semver_compare_def split: option.splits)

lemma precedes_iff: "precedes a b \<longleftrightarrow> valid a \<and> valid b \<and> version_key a \<le> version_key b"
proof (cases "valid a \<and> valid b")
  case True
  then show ?thesis
    by (auto simp: precedes_def semver_compare_valid by_key_def)
next
  case False
  then show ?thesis
    by (auto simp: precedes_def dest: semver_compare_Inr)
qed

lemma compare_GT_iff:
  "valid a \<Longrightarrow> valid b \<Longrightarrow> semver_compare a b = Inr GT \<longleftrightarrow> version_key b < version_key a"
  by (auto simp: semver_compare_valid by_key_def)

lemma compare_LT_iff:
  "valid a \<Longrightarrow> valid b \<Longrightarrow> semver_compare a b = Inr LT \<longleftrightarrow> version_key a < version_key b"
  by (auto simp: semver_compare_valid by_key_def)

lemma set_insert_version [simp]: "set (insert_version v us) = insert v (set us)"
  by (induction us) auto


lemma precedes_trans: "precedes a b \<Longrightarrow> precedes b c \<Longrightarrow> precedes a c"
  unfolding precedes_iff by (meson order_trans)

lemma not_GT_precedes:
  "valid a \<Longrightarrow> valid b \<Longrightarrow> semver_compare a b \<noteq> Inr GT \<Longrightarrow> precedes a b"
  by (simp add: precedes_iff compare_GT_iff)

lemma GT_precedes:
  "valid a \<Longrightarrow> valid b \<Longrightarrow> semver_compare a b = Inr GT \<Longrightarrow> precedes b a"
  by (simp add: precedes_iff compare_GT_iff)

lemma sorted_insert_version:
  "valid v \<Longrightarrow> list_all valid us \<Longrightarrow> sorted_wrt precedes us
     \<Longrightarrow> sorted_wrt precedes (insert_version v us)"
proof (induction us)
  case Nil
  then show ?case by simp
next
  case (Cons u us)
  from Cons.prems have vu: "valid u" and vus: "list_all valid us"
    and su: "\<forall>x\<in>set us. precedes u x" and sus: "sorted_wrt precedes us"
    by simp_all
  show ?case
  proof (cases "semver_compare v u = Inr GT")
    case True
    have uv: "precedes u v"
      using Cons.prems(1) vu True by (rule GT_precedes)
    have IH: "sorted_wrt precedes (insert_version v us)"
      using Cons.prems(1) vus sus by (rule Cons.IH)
    have "\<forall>x\<in>set (insert_version v us). precedes u x"
      using su uv by simp
    with True IH show ?thesis by simp
  next
    case False
    have vu': "precedes v u"
      using Cons.prems(1) vu False by (rule not_GT_precedes)
    have "\<forall>x\<in>set us. precedes v x"
      using su vu' precedes_trans by blast
    with False vu' su sus show ?thesis by simp
  qed
qed

lemma set_foldr_insert [simp]: "set (foldr insert_version vs []) = set vs"
  by (induction vs) auto

lemma sorted_foldr_insert:
  "list_all valid vs \<Longrightarrow> sorted_wrt precedes (foldr insert_version vs [])"
proof (induction vs)
  case Nil
  then show ?case by simp
next
  case (Cons v vs)
  have "list_all valid (foldr insert_version vs [])"
    using Cons.prems by (simp add: list_all_iff)
  with Cons show ?case by (simp add: sorted_insert_version)
qed

lemma sort_versions_set: "sort_versions ks = Inr vs \<Longrightarrow> set vs = set ks"
  by (auto simp: sort_versions_def split: if_splits list.splits)

lemma sort_versions_sorted: "sort_versions ks = Inr vs \<Longrightarrow> length ks \<noteq> 1 \<Longrightarrow> sorted_wrt precedes vs"
proof -
  assume a: "sort_versions ks = Inr vs" and l: "length ks \<noteq> 1"
  show ?thesis
  proof (cases "length ks < 2")
    case True
    with l have "ks = []" by (cases ks) auto
    with a show ?thesis by (simp add: sort_versions_def)
  next
    case False
    with a have f: "filter (\<lambda>v. parse_semver v = None) ks = []"
      and eq: "vs = foldr insert_version ks []"
      by (auto simp: sort_versions_def split: list.splits)
    from f have "list_all valid ks"
      by (auto simp: list_all_iff valid_def filter_empty_conv)
    then have "sorted_wrt precedes (foldr insert_version ks [])"
      by (rule sorted_foldr_insert)
    with eq show ?thesis by simp
  qed
qed

lemma filter_versions_filter:
  "filter_versions floor vs = Inr r \<Longrightarrow> r = filter (\<lambda>v. meets_floor floor v = Inr True) vs"
  by (induction vs arbitrary: r) (auto split: sum.splits if_splits)

section \<open>The candidates logged by a search\<close>

lemma checked_emit:
  "checked (emit e st) = checked st @ (case e of Checking s \<Rightarrow> [s] | _ \<Rightarrow> [])"
  by (simp add: checked_def emit_def)

lemma checked_caches [simp]:
  "checked (st\<lparr>packageMetaCache := m\<rparr>) = checked st"
  "checked (st\<lparr>versionResolutionCache := c\<rparr>) = checked st"
  by (simp_all add: checked_def)

lemma checked_fetch: "checked (snd (fetchPackageMetadata w st n)) = checked st"
  by (simp add: fetchPackageMetadata_def checked_emit split: option.splits)

lemma checked_resolve: "checked (snd (resolveVersion w st n r)) = checked st"
proof -
  have "checked (snd (fetchPackageMetadata w st n)) = checked st" by (rule checked_fetch)
  then show ?thesis
    by (auto simp: resolveVersion_def Let_def split: option.splits prod.splits sum.splits)
qed

lemma checked_enqueue: "checked (snd (enqueue_deps w st path deps)) = checked st"
proof (induction deps arbitrary: st)
  case Nil
  then show ?case by simp
next
  case (Cons d deps)
  obtain depName depRange where d: "d = (depName, depRange)" by (cases d)
  obtain resolved st1 where r: "resolveVersion w st depName depRange = (resolved, st1)"
    by (cases "resolveVersion w st depName depRange")
  have "checked st1 = checked st" using checked_resolve [of w st depName depRange] r by simp
  moreover have "checked (snd (enqueue_deps w st1 path deps)) = checked st1" by (rule Cons.IH)
  ultimately show ?case using d r
    by (auto split: prod.splits option.splits)
qed

lemma checked_traverse: "checked (snd (traverse w t st queue visited found)) = checked st"
proof (induction w t st queue visited found rule: traverse.induct)
  case (1 w targetName st visited found)
  then show ?case by (simp add: traverse.simps)
next
  case (2 w targetName st name ver path queue visited found)
  let ?key = "name @ ''@'' @ ver"
  let ?st0 = "emit (Visit name ver) st"
  have c0: "checked ?st0 = checked st" by (simp add: checked_emit)
  show ?case
  proof (cases "?key \<in> set visited")
    case True
    with 2 show ?thesis by (simp add: traverse.simps)
  next
    case nv: False
    show ?thesis
    proof (cases "length (visited @ [?key]) > maxNodes")
      case True
      with nv show ?thesis by (simp add: traverse.simps)
    next
      case small: False
      show ?thesis
      proof (cases "name = targetName")
        case True
        with nv small c0 2(2) show ?thesis by (simp add: traverse.simps)
      next
        case nt: False
        obtain res st1 where f: "fetchPackageMetadata w ?st0 name = (res, st1)"
          by (cases "fetchPackageMetadata w ?st0 name")
        have c1: "checked st1 = checked st"
          using checked_fetch [of w ?st0 name] f c0 by simp
        show ?thesis
        proof (cases res)
          case (Inl e)
          with nv small nt f c1 2(3) show ?thesis by (simp add: traverse.simps)
        next
          case (Inr meta)
          show ?thesis
          proof (cases "map_of (versions meta) ver")
            case None
            with Inr nv small nt f c1 2(4) show ?thesis by (simp add: traverse.simps)
          next
            case (Some pkg)
            obtain children st2 where
              e: "enqueue_deps w (emit (Expand name ver) st1) path
                    (spread (dependencies pkg) (optionalDependencies pkg)) = (children, st2)"
              by (cases "enqueue_deps w (emit (Expand name ver) st1) path
                    (spread (dependencies pkg) (optionalDependencies pkg))")
            have c2: "checked st2 = checked st"
              using checked_enqueue [of w "emit (Expand name ver) st1" path
                  "spread (dependencies pkg) (optionalDependencies pkg)"] e c1
              by (simp add: checked_emit)
            from Some Inr nv small nt f e c2 2(5) show ?thesis by (simp add: traverse.simps)
          qed
        qed
      qed
    qed
  qed
qed

lemma checked_findChild:
  "checked (snd (findChildOccurrencesInTree w st rootName rootVersion t)) = checked st"
  unfolding findChildOccurrencesInTree_def by (rule checked_traverse)

lemma checked_analyze:
  "checked (snd (analyzePackageDependencies w st spec child childMin removed)) = checked st"
proof (cases "splitNameAndVersion spec")
  case (Inl e)
  then show ?thesis by (simp add: analyzePackageDependencies_def)
next
  case (Inr nv)
  obtain parentName parentVersion where nv: "nv = (parentName, parentVersion)" by (cases nv)
  obtain traversal st1 where
    t: "findChildOccurrencesInTree w st parentName parentVersion child = (traversal, st1)"
    by (cases "findChildOccurrencesInTree w st parentName parentVersion child")
  have "checked st1 = checked st"
    using checked_findChild [of w st parentName parentVersion child] t by simp
  with Inr nv t show ?thesis by (simp add: analyzePackageDependencies_def)
qed

lemma checked_candidate:
  "checked (snd (analyze_candidate w st p v)) = checked st @ [parentPackage p @ ''@'' @ v]"
  by (simp add: analyze_candidate_def checked_analyze checked_emit)

lemma reject_all_append:
  "reject_all w st p (xs @ ys) =
     (case reject_all w st p xs of None \<Rightarrow> None | Some st1 \<Rightarrow> reject_all w st1 p ys)"
  by (induction xs arbitrary: st) (auto split: prod.splits sum.splits)

lemma reject_all_checked:
  "reject_all w st p vs = Some st' \<Longrightarrow>
     checked st' = checked st @ map (\<lambda>v. parentPackage p @ ''@'' @ v) vs"
proof (induction vs arbitrary: st)
  case Nil
  then show ?case by simp
next
  case (Cons v vs)
  obtain res st1 where a: "analyze_candidate w st p v = (res, st1)"
    by (cases "analyze_candidate w st p v")
  with Cons.prems obtain d where d: "res = Inr d" "\<not> success d" "reject_all w st1 p vs = Some st'"
    by (auto split: sum.splits if_splits)
  have "checked st1 = checked st @ [parentPackage p @ ''@'' @ v]"
    using checked_candidate [of w st p v] a by simp
  with Cons.IH [OF d(3)] show ?case by simp
qed

lemma check_versions_none:
  "check_versions w st p g vs = (Inr None, st') \<longleftrightarrow> reject_all w st p vs = Some st'"
  by (induction vs arbitrary: st) (auto split: prod.splits sum.splits)

lemma check_versions_some:
  "check_versions w st p g vs = (Inr (Some r), st') \<Longrightarrow>
     \<exists>pre v post st2 d.
        vs = pre @ v # post \<and> reject_all w st p pre = Some st2
      \<and> analyze_candidate w st2 p v = (Inr d, st') \<and> success d
      \<and> r = accepted (if g = ''stable'' then '' (stable release)'' else '' (pre-release)'') v d"
proof (induction vs arbitrary: st)
  case Nil
  then show ?case by simp
next
  case (Cons u us)
  obtain res st1 where a: "analyze_candidate w st p u = (res, st1)"
    by (cases "analyze_candidate w st p u")
  from Cons.prems a obtain d where d: "res = Inr d"
    by (cases res) auto
  show ?case
  proof (cases "success d")
    case True
    with Cons.prems a d have "st' = st1"
      and "r = accepted (if g = ''stable'' then '' (stable release)'' else '' (pre-release)'') u d"
      by (auto simp: accepted_def)
    with a d True have
      "u # us = [] @ u # us \<and> reject_all w st p [] = Some st
       \<and> analyze_candidate w st p u = (Inr d, st') \<and> success d
       \<and> r = accepted (if g = ''stable'' then '' (stable release)'' else '' (pre-release)'') u d"
      by simp
    then show ?thesis by blast
  next
    case False
    with Cons.prems a d have "check_versions w st1 p g us = (Inr (Some r), st')" by simp
    from Cons.IH [OF this] obtain pre v post st2 d' where
      h: "us = pre @ v # post" "reject_all w st1 p pre = Some st2"
         "analyze_candidate w st2 p v = (Inr d', st')" "success d'"
         "r = accepted (if g = ''stable'' then '' (stable release)'' else '' (pre-release)'') v d'"
      by blast
    from h a d False have
      "u # us = (u # pre) @ v # post \<and> reject_all w st p (u # pre) = Some st2
       \<and> analyze_candidate w st2 p v = (Inr d', st') \<and> success d'
       \<and> r = accepted (if g = ''stable'' then '' (stable release)'' else '' (pre-release)'') v d'"
      by simp
    then show ?thesis by blast
  qed
qed

lemma success_failure [simp]: "\<not> success (failure m)"
  by (simp add: failure_def)

lemma accepted_sel [simp]:
  "success (accepted t v d)" "version (accepted t v d) = Some v" "details (accepted t v d) = details d"
  by (simp_all add: accepted_def)

lemma search_success:
  assumes "search w st p = (Inr r, st')" and "success r"
  shows "\<exists>meta st1 cs pre v post st2 d.
           fetchPackageMetadata w st (parentPackage p) = (Inr meta, st1)
         \<and> candidates (parentMinVersion p) (map fst (versions meta)) = Inr cs
         \<and> cs = pre @ v # post
         \<and> reject_all w st1 p pre = Some st2
         \<and> analyze_candidate w st2 p v = (Inr d, st') \<and> success d
         \<and> version r = Some v \<and> details r = details d"
proof -
  obtain fr st1 where f: "fetchPackageMetadata w st (parentPackage p) = (fr, st1)"
    by (cases "fetchPackageMetadata w st (parentPackage p)")
  from assms(1) f obtain meta where meta: "fr = Inr meta"
    by (cases fr) (auto simp: search_def getPackageVersions_def)
  let ?keys = "map fst (versions meta)"
  from assms(1) f meta obtain vs where vs: "sort_versions ?keys = Inr vs"
    by (cases "sort_versions ?keys") (auto simp: search_def getPackageVersions_def)
  from assms f meta vs have ne: "vs \<noteq> []"
    by (auto simp: search_def getPackageVersions_def)
  from assms(1) f meta vs ne obtain fv where fv: "filter_versions (parentMinVersion p) vs = Inr fv"
    by (cases "filter_versions (parentMinVersion p) vs") (auto simp: search_def getPackageVersions_def)
  from assms f meta vs ne fv have fne: "fv \<noteq> []"
    by (auto simp: search_def getPackageVersions_def)
  let ?stable = "filter (\<lambda>v. \<not> is_prerelease v) fv"
  let ?pre = "filter is_prerelease fv"
  have cs: "candidates (parentMinVersion p) ?keys = Inr (?stable @ ?pre)"
    using vs fv by (simp add: candidates_def)
  obtain c1 st2 where c1: "check_versions w st1 p ''stable'' ?stable = (c1, st2)"
    by (cases "check_versions w st1 p ''stable'' ?stable")
  obtain c2 st3 where c2: "check_versions w st2 p ''pre-release'' ?pre = (c2, st3)"
    by (cases "check_versions w st2 p ''pre-release'' ?pre")
  have unfold: "search w st p =
     (case c1 of Inl e \<Rightarrow> (Inl e, st2) | Inr (Some r) \<Rightarrow> (Inr r, st2)
      | Inr None \<Rightarrow> (case c2 of Inl e \<Rightarrow> (Inl e, st3) | Inr (Some r) \<Rightarrow> (Inr r, st3)
          | Inr None \<Rightarrow> (Inr (failure ''No compatible version found for the given requirements''), st3)))"
    using f meta vs ne fv fne c1 c2
    by (simp add: search_def getPackageVersions_def split: sum.splits option.splits)
  show ?thesis
  proof (cases c1)
    case (Inl e)
    with unfold assms show ?thesis by simp
  next
    case (Inr o1)
    show ?thesis
    proof (cases o1)
      case (Some r1)
      with Inr unfold assms have "r1 = r" "st2 = st'" by simp_all
      with c1 Inr Some have "check_versions w st1 p ''stable'' ?stable = (Inr (Some r), st')" by simp
      from check_versions_some [OF this] obtain pre v post s2 d where
        h: "?stable = pre @ v # post" "reject_all w st1 p pre = Some s2"
           "analyze_candidate w s2 p v = (Inr d, st')" "success d"
           "r = accepted (if ''stable'' = ''stable'' then '' (stable release)'' else '' (pre-release)'') v d"
        by blast
      from h(1) have "?stable @ ?pre = pre @ v # (post @ ?pre)" by simp
      with f meta cs h show ?thesis by (metis accepted_sel(2,3))
    next
      case None
      with Inr c1 have r1: "reject_all w st1 p ?stable = Some st2"
        by (simp add: check_versions_none)
      show ?thesis
      proof (cases c2)
        case (Inl e)
        with None Inr unfold assms show ?thesis by simp
      next
        case i2: (Inr o2)
        show ?thesis
        proof (cases o2)
          case n2: None
          with i2 None Inr unfold assms show ?thesis by simp
        next
          case (Some r2)
          with i2 None Inr unfold assms have "r2 = r" "st3 = st'" by simp_all
          with c2 i2 Some have "check_versions w st2 p ''pre-release'' ?pre = (Inr (Some r), st')"
            by simp
          from check_versions_some [OF this] obtain pre v post s2 d where
            h: "?pre = pre @ v # post" "reject_all w st2 p pre = Some s2"
               "analyze_candidate w s2 p v = (Inr d, st')" "success d"
               "r = accepted (if ''pre-release'' = ''stable'' then '' (stable release)'' else '' (pre-release)'') v d"
            by blast
          from h(1) have e: "?stable @ ?pre = (?stable @ pre) @ v # post" by simp
          have "reject_all w st1 p (?stable @ pre) = Some s2"
            using r1 h(2) by (simp add: reject_all_append)
          with f meta cs h e show ?thesis by (metis accepted_sel(2,3))
        qed
      qed
    qed
  qed
qed

lemma check_versions_error:
  "check_versions w st p g vs = (Inl e, st') \<Longrightarrow>
     \<exists>pre v post st2.
        vs = pre @ v # post \<and> reject_all w st p pre = Some st2
      \<and> analyze_candidate w st2 p v = (Inl e, st')"
proof (induction vs arbitrary: st)
  case Nil
  then show ?case by simp
next
  case (Cons u us)
  obtain res st1 where a: "analyze_candidate w st p u = (res, st1)"
    by (cases "analyze_candidate w st p u")
  show ?case
  proof (cases res)
    case (Inl e')
    with Cons.prems a have "e' = e" "st1 = st'" by simp_all
    with a Inl have
      "u # us = [] @ u # us \<and> reject_all w st p [] = Some st
       \<and> analyze_candidate w st p u = (Inl e, st')"
      by simp
    then show ?thesis by blast
  next
    case (Inr d)
    with Cons.prems a have ns: "\<not> success d" and rest: "check_versions w st1 p g us = (Inl e, st')"
      by (auto split: if_splits)
    from Cons.IH [OF rest] obtain pre v post st2 where
      h: "us = pre @ v # post" "reject_all w st1 p pre = Some st2"
         "analyze_candidate w st2 p v = (Inl e, st')"
      by blast
    from h a Inr ns have
      "u # us = (u # pre) @ v # post \<and> reject_all w st p (u # pre) = Some st2
       \<and> analyze_candidate w st2 p v = (Inl e, st')"
      by simp
    then show ?thesis by blast
  qed
qed

lemma checked_after_prefix:
  assumes "reject_all w st p pre = Some st2" and "analyze_candidate w st2 p v = (res, st')"
  shows "checked st' = checked st @ map (\<lambda>u. parentPackage p @ ''@'' @ u) (pre @ [v])"
  using reject_all_checked [OF assms(1)] checked_candidate [of w st2 p v] assms(2) by simp

lemma check_versions_prefix:
  assumes "check_versions w st p g vs = (res, st')"
  shows "\<exists>n. n \<le> length vs
           \<and> checked st' = checked st @ map (\<lambda>u. parentPackage p @ ''@'' @ u) (take n vs)
           \<and> (res = Inr None \<longrightarrow> n = length vs)"
proof (cases res)
  case (Inl e)
  with assms obtain pre v post st2 where
    h: "vs = pre @ v # post" "reject_all w st p pre = Some st2"
       "analyze_candidate w st2 p v = (Inl e, st')"
    using check_versions_error by blast
  have "take (Suc (length pre)) vs = pre @ [v]" using h(1) by simp
  with checked_after_prefix [OF h(2,3)] h(1) Inl show ?thesis
    by (intro exI [of _ "Suc (length pre)"]) simp
next
  case (Inr opt)
  show ?thesis
  proof (cases opt)
    case None
    with Inr assms have "reject_all w st p vs = Some st'" by (simp add: check_versions_none)
    from reject_all_checked [OF this] None Inr show ?thesis
      by (intro exI [of _ "length vs"]) simp
  next
    case (Some r)
    with Inr assms obtain pre v post st2 d where
      h: "vs = pre @ v # post" "reject_all w st p pre = Some st2"
         "analyze_candidate w st2 p v = (Inr d, st')"
      using check_versions_some by blast
    have "take (Suc (length pre)) vs = pre @ [v]" using h(1) by simp
    with checked_after_prefix [OF h(2,3)] h(1) Some Inr show ?thesis
      by (intro exI [of _ "Suc (length pre)"]) simp
  qed
qed

lemma search_prefix:
  assumes "search w st p = (res, st')"
    and "fetchPackageMetadata w st (parentPackage p) = (Inr meta, st1)"
    and "candidates (parentMinVersion p) (map fst (versions meta)) = Inr cs"
  shows "\<exists>n. checked st' = checked st @ map (\<lambda>u. parentPackage p @ ''@'' @ u) (take n cs)"
proof -
  let ?keys = "map fst (versions meta)"
  let ?spec = "\<lambda>u. parentPackage p @ ''@'' @ u"
  have c1: "checked st1 = checked st"
    using checked_fetch [of w st "parentPackage p"] assms(2) by simp
  from assms(3) obtain vs where vs: "sort_versions ?keys = Inr vs"
    by (cases "sort_versions ?keys") (auto simp: candidates_def)
  from assms(3) vs obtain fv where fv: "filter_versions (parentMinVersion p) vs = Inr fv"
    by (cases "filter_versions (parentMinVersion p) vs") (auto simp: candidates_def)
  let ?stable = "filter (\<lambda>v. \<not> is_prerelease v) fv"
  let ?pre = "filter is_prerelease fv"
  have cs: "cs = ?stable @ ?pre" using assms(3) vs fv by (simp add: candidates_def)
  show ?thesis
  proof (cases "vs = [] \<or> fv = []")
    case True
    have "st' = st1"
    proof (cases "vs = []")
      case True
      with assms(1,2) vs show ?thesis
        by (simp add: search_def getPackageVersions_def)
    next
      case False
      with True have "fv = []" by simp
      with False assms(1,2) vs fv show ?thesis
        by (simp add: search_def getPackageVersions_def)
    qed
    with c1 show ?thesis by (intro exI [of _ 0]) simp
  next
    case False
    obtain r1 st2 where l1: "check_versions w st1 p ''stable'' ?stable = (r1, st2)"
      by (cases "check_versions w st1 p ''stable'' ?stable")
    obtain r2 st3 where l2: "check_versions w st2 p ''pre-release'' ?pre = (r2, st3)"
      by (cases "check_versions w st2 p ''pre-release'' ?pre")
    from check_versions_prefix [OF l1] obtain n1 where
      n1: "n1 \<le> length ?stable" "checked st2 = checked st1 @ map ?spec (take n1 ?stable)"
          "r1 = Inr None \<longrightarrow> n1 = length ?stable"
      by blast
    from check_versions_prefix [OF l2] obtain n2 where
      n2: "n2 \<le> length ?pre" "checked st3 = checked st2 @ map ?spec (take n2 ?pre)"
      by blast
    have unfold: "search w st p =
       (case r1 of Inl e \<Rightarrow> (Inl e, st2) | Inr (Some r) \<Rightarrow> (Inr r, st2)
        | Inr None \<Rightarrow> (case r2 of Inl e \<Rightarrow> (Inl e, st3) | Inr (Some r) \<Rightarrow> (Inr r, st3)
            | Inr None \<Rightarrow> (Inr (failure ''No compatible version found for the given requirements''), st3)))"
      using assms(2) vs fv False l1 l2
      by (simp add: search_def getPackageVersions_def split: sum.splits option.splits)
    show ?thesis
    proof (cases "r1 = Inr None")
      case True
      with unfold assms(1) have "st' = st3"
        by (auto split: sum.splits option.splits)
      moreover from True n1 have "n1 = length ?stable" by simp
      ultimately have "checked st' = checked st @ map ?spec (take (length ?stable + n2) cs)"
        using n1(2) n2(2) c1 cs by simp
      then show ?thesis by blast
    next
      case False
      with unfold assms(1) have "st' = st2"
        by (auto split: sum.splits option.splits)
      with n1 c1 cs have "checked st' = checked st @ map ?spec (take n1 cs)" by simp
      then show ?thesis by blast
    qed
  qed
qed

lemma search_all_rejected:
  assumes "fetchPackageMetadata w st (parentPackage p) = (Inr meta, st1)"
    and "candidates (parentMinVersion p) (map fst (versions meta)) = Inr cs"
    and "reject_all w st1 p cs = Some st2"
  shows "\<exists>r. search w st p = (Inr r, st2) \<and> \<not> success r"
proof -
  let ?keys = "map fst (versions meta)"
  from assms(2) obtain vs where vs: "sort_versions ?keys = Inr vs"
    by (cases "sort_versions ?keys") (auto simp: candidates_def)
  from assms(2) vs obtain fv where fv: "filter_versions (parentMinVersion p) vs = Inr fv"
    by (cases "filter_versions (parentMinVersion p) vs") (auto simp: candidates_def)
  let ?stable = "filter (\<lambda>v. \<not> is_prerelease v) fv"
  let ?pre = "filter is_prerelease fv"
  have cs: "cs = ?stable @ ?pre" using assms(2) vs fv by (simp add: candidates_def)
  show ?thesis
  proof (cases "vs = [] \<or> fv = []")
    case True
    have "fv = []"
    proof (cases "vs = []")
      case True
      with fv show ?thesis by simp
    next
      case False
      with True show ?thesis by simp
    qed
    with cs have "cs = []" by simp
    with assms(3) have st2: "st2 = st1" by simp
    show ?thesis
    proof (cases "vs = []")
      case True
      with assms(1) vs st2 show ?thesis
        by (simp add: search_def getPackageVersions_def)
    next
      case False
      with \<open>fv = []\<close> assms(1) vs fv st2 show ?thesis
        by (simp add: search_def getPackageVersions_def)
    qed
  next
    case False
    from assms(3) cs obtain sa where
      sa: "reject_all w st1 p ?stable = Some sa" "reject_all w sa p ?pre = Some st2"
      by (auto simp: reject_all_append split: option.splits)
    then have "check_versions w st1 p ''stable'' ?stable = (Inr None, sa)"
      "check_versions w sa p ''pre-release'' ?pre = (Inr None, st2)"
      by (simp_all add: check_versions_none)
    with False assms(1) vs fv show ?thesis
      by (simp add: search_def getPackageVersions_def)
  qed
qed

lemma sorted_wrt_short: "length xs \<le> 1 \<Longrightarrow> sorted_wrt R xs"
  by (cases xs) auto

lemma sort_versions_sorted_filter:
  assumes "sort_versions ks = Inr vs"
  shows "sorted_wrt precedes (filter P vs)"
proof (cases "length ks = 1")
  case True
  with assms have "vs = ks" by (simp add: sort_versions_def)
  with True have "length (filter P vs) \<le> 1"
    using length_filter_le [of P vs] by simp
  then show ?thesis by (rule sorted_wrt_short)
next
  case False
  with assms have "sorted_wrt precedes vs" by (rule sort_versions_sorted)
  then show ?thesis by (rule sorted_wrt_filter)
qed

lemma candidates_shape:
  assumes "candidates floor keys = Inr cs"
  shows "\<exists>stable pre. cs = stable @ pre
           \<and> list_all (\<lambda>v. \<not> is_prerelease v) stable \<and> list_all is_prerelease pre
           \<and> sorted_wrt precedes stable \<and> sorted_wrt precedes pre"
    and "set cs = {v \<in> set keys. meets_floor floor v = Inr True}"
proof -
  from assms obtain vs where vs: "sort_versions keys = Inr vs"
    by (cases "sort_versions keys") (auto simp: candidates_def)
  from assms vs obtain fv where fv: "filter_versions floor vs = Inr fv"
    by (cases "filter_versions floor vs") (auto simp: candidates_def)
  let ?keep = "\<lambda>v. meets_floor floor v = Inr True"
  have fv_eq: "fv = filter ?keep vs" using fv by (rule filter_versions_filter)
  let ?stable = "filter (\<lambda>v. \<not> is_prerelease v) fv"
  let ?pre = "filter is_prerelease fv"
  have cs: "cs = ?stable @ ?pre" using assms vs fv by (simp add: candidates_def)
  have s1: "sorted_wrt precedes ?stable"
    unfolding fv_eq filter_filter using vs by (rule sort_versions_sorted_filter)
  have s2: "sorted_wrt precedes ?pre"
    unfolding fv_eq filter_filter using vs by (rule sort_versions_sorted_filter)
  have "cs = ?stable @ ?pre
           \<and> list_all (\<lambda>v. \<not> is_prerelease v) ?stable \<and> list_all is_prerelease ?pre
           \<and> sorted_wrt precedes ?stable \<and> sorted_wrt precedes ?pre"
    using cs s1 s2 by (simp add: list_all_iff)
  then show "\<exists>stable pre. cs = stable @ pre
           \<and> list_all (\<lambda>v. \<not> is_prerelease v) stable \<and> list_all is_prerelease pre
           \<and> sorted_wrt precedes stable \<and> sorted_wrt precedes pre"
    by blast
  have "set vs = set keys" using vs by (rule sort_versions_set)
  with cs fv_eq show "set cs = {v \<in> set keys. meets_floor floor v = Inr True}"
    by auto
qed

section \<open>Facts about single steps\<close>

lemma fetch_parent_fails:
  assumes "packageMetaCache st name = None" and "registry w name = None"
  shows "fetchPackageMetadata w st name = (Inl (FetchFailed name), emit (Fetch name) st)"
  using assms by (simp add: fetchPackageMetadata_def)

lemma lastIndexOf_absent: "c \<notin> set ys \<Longrightarrow> lastIndexOf c ys = None"
  by (induction ys) auto

lemma lastIndexOf_last:
  "c \<notin> set ys \<Longrightarrow> lastIndexOf c (xs @ c # ys) = Some (length xs)"
  by (induction xs) (auto simp: lastIndexOf_absent)

lemma split_candidate:
  assumes "parent \<noteq> []" and "CHR ''@'' \<notin> set v"
  shows "splitNameAndVersion (parent @ CHR ''@'' # v) = Inr (parent, v)"
proof -
  have "lastIndexOf CHR ''@'' (parent @ CHR ''@'' # v) = Some (length parent)"
    using assms(2) by (rule lastIndexOf_last)
  with assms(1) show ?thesis by (simp add: splitNameAndVersion_def)
qed

lemma analyze_lines_no_minimum: "analyze_lines child [] lines acc = Inr acc"
  by (induction lines) (auto split: option.splits)

lemma evaluate_no_minimum:
  "lines \<noteq> [] \<Longrightarrow>
   evaluate lines pv child [] False =
     Inr \<lparr>success = True,
          message = ''SUCCESS: Version '' @ pv @ '' - ALL instances of '' @ quoted child
            @ '' meet the minimum version requirement (>= '' @ [] @ '').'',
          details = lines\<rparr>"
  by (simp add: evaluate_def analyzeVersionRequirements_def analyze_lines_no_minimum)

lemma evaluate_no_occurrence:
  "evaluate [] pv child childMin False =
     Inr \<lparr>success = False, message = ''Package '' @ quoted child @ '' not found in dependency tree'',
          details = []\<rparr>"
  by (simp add: evaluate_def)

lemma analyze_candidate_no_minimum:
  assumes "\<not> packageRemoved p" and "childMinVersion p = []" and "parentPackage p \<noteq> []"
    and "CHR ''@'' \<notin> set v"
    and "findChildOccurrencesInTree w (emit (Checking (parentPackage p @ ''@'' @ v)) st)
           (parentPackage p) v (childPackage p) = (traversal, st1)"
  shows "\<exists>d. analyze_candidate w st p v = (Inr d, st1) \<and> success d = (matches traversal \<noteq> [])"
proof (cases "matches traversal = []")
  case True
  with assms show ?thesis
    by (simp add: analyze_candidate_def analyzePackageDependencies_def split_candidate
        evaluate_no_occurrence)
next
  case False
  then have "map pathString (matches traversal) \<noteq> []" by simp
  from evaluate_no_minimum [OF this] False assms show ?thesis
    by (simp add: analyze_candidate_def analyzePackageDependencies_def split_candidate)
qed

lemma check_versions_no_minimum:
  assumes "\<not> packageRemoved p" and "childMinVersion p = []" and "parentPackage p \<noteq> []"
    and "list_all (\<lambda>v. CHR ''@'' \<notin> set v) vs"
    and "first_with_occurrence w st (parentPackage p) (childPackage p) vs = (found, st')"
  shows "case found of
           None \<Rightarrow> check_versions w st p g vs = (Inr None, st')
         | Some v \<Rightarrow> \<exists>r. check_versions w st p g vs = (Inr (Some r), st') \<and> success r
                        \<and> version r = Some v"
  using assms(4,5)
proof (induction vs arbitrary: st)
  case Nil
  then show ?case by simp
next
  case (Cons u us)
  obtain traversal st1 where
    t: "findChildOccurrencesInTree w (emit (Checking (parentPackage p @ ''@'' @ u)) st)
           (parentPackage p) u (childPackage p) = (traversal, st1)"
    by (cases "findChildOccurrencesInTree w (emit (Checking (parentPackage p @ ''@'' @ u)) st)
           (parentPackage p) u (childPackage p)")
  from Cons.prems(1) have u: "CHR ''@'' \<notin> set u" and us: "list_all (\<lambda>v. CHR ''@'' \<notin> set v) us"
    by simp_all
  from analyze_candidate_no_minimum [OF assms(1,2,3) u t] obtain d where
    d: "analyze_candidate w st p u = (Inr d, st1)" "success d = (matches traversal \<noteq> [])"
    by blast
  show ?case
  proof (cases "matches traversal = []")
    case True
    with Cons.prems(2) t have "first_with_occurrence w st1 (parentPackage p) (childPackage p) us
        = (found, st')" by simp
    from Cons.IH [OF us this] d True show ?thesis
      by (cases found) auto
  next
    case False
    with Cons.prems(2) t have "found = Some u" "st' = st1" by simp_all
    with d False show ?thesis by simp
  qed
qed

lemma first_with_occurrence_append:
  "first_with_occurrence w st a c (xs @ ys) =
     (case first_with_occurrence w st a c xs of
        (Some v, st') \<Rightarrow> (Some v, st')
      | (None, st') \<Rightarrow> first_with_occurrence w st' a c ys)"
  by (induction xs arbitrary: st) (auto split: prod.splits)

section \<open>The nodes of a traversal\<close>

lemma visited_emit:
  "visited_nodes (emit e st) = visited_nodes st @ (case e of Visit n v \<Rightarrow> [(n, v)] | _ \<Rightarrow> [])"
  by (simp add: visited_nodes_def emit_def)

lemma expanded_emit:
  "expanded_nodes (emit e st) = expanded_nodes st @ (case e of Expand n v \<Rightarrow> [(n, v)] | _ \<Rightarrow> [])"
  by (simp add: expanded_nodes_def emit_def)

lemma nodes_caches [simp]:
  "visited_nodes (st\<lparr>packageMetaCache := m\<rparr>) = visited_nodes st"
  "visited_nodes (st\<lparr>versionResolutionCache := c\<rparr>) = visited_nodes st"
  "expanded_nodes (st\<lparr>packageMetaCache := m\<rparr>) = expanded_nodes st"
  "expanded_nodes (st\<lparr>versionResolutionCache := c\<rparr>) = expanded_nodes st"
  by (simp_all add: visited_nodes_def expanded_nodes_def)

lemma nodes_fetch:
  "visited_nodes (snd (fetchPackageMetadata w st n)) = visited_nodes st"
  "expanded_nodes (snd (fetchPackageMetadata w st n)) = expanded_nodes st"
  by (simp_all add: fetchPackageMetadata_def visited_emit expanded_emit split: option.splits)

lemma nodes_resolve:
  "visited_nodes (snd (resolveVersion w st n r)) = visited_nodes st"
  "expanded_nodes (snd (resolveVersion w st n r)) = expanded_nodes st"
proof -
  obtain fr s where f: "fetchPackageMetadata w st n = (fr, s)"
    by (cases "fetchPackageMetadata w st n")
  with nodes_fetch [of w st n] have "visited_nodes s = visited_nodes st"
    "expanded_nodes s = expanded_nodes st" by simp_all
  with f show "visited_nodes (snd (resolveVersion w st n r)) = visited_nodes st"
    "expanded_nodes (snd (resolveVersion w st n r)) = expanded_nodes st"
    by (auto simp: resolveVersion_def Let_def split: option.splits sum.splits)
qed

lemma nodes_enqueue:
  "visited_nodes (snd (enqueue_deps w st path deps)) = visited_nodes st
   \<and> expanded_nodes (snd (enqueue_deps w st path deps)) = expanded_nodes st"
proof (induction deps arbitrary: st)
  case Nil
  then show ?case by simp
next
  case (Cons d deps)
  obtain depName depRange where d: "d = (depName, depRange)" by (cases d)
  obtain resolved st1 where r: "resolveVersion w st depName depRange = (resolved, st1)"
    by (cases "resolveVersion w st depName depRange")
  have "visited_nodes st1 = visited_nodes st" "expanded_nodes st1 = expanded_nodes st"
    using nodes_resolve [of w st depName depRange] r by simp_all
  with Cons.IH [of st1] d r show ?case
    by (auto split: prod.splits option.splits)
qed

lemma traverse_visits:
  "traverse w t st queue visited found = (res, st') \<Longrightarrow>
     \<exists>vis. visited_nodes st' = visited_nodes st @ vis
        \<and> distinct (map node_key vis) \<and> set (map node_key vis) \<inter> set visited = {}
        \<and> map matchVersion (matches res) =
            map matchVersion found @ map snd (filter (\<lambda>nv. fst nv = t) vis)"
proof (induction w t st queue visited found arbitrary: res st' rule: traverse.induct)
  case (1 w targetName st visited found)
  then have "res = \<lparr>matches = found, visitedCount = length visited, truncated = False\<rparr>" "st' = st"
    by (simp_all add: traverse.simps)
  then have "visited_nodes st' = visited_nodes st @ []
        \<and> distinct (map node_key []) \<and> set (map node_key []) \<inter> set visited = {}
        \<and> map matchVersion (matches res) =
            map matchVersion found @ map snd (filter (\<lambda>nv. fst nv = targetName) [])"
    by simp
  then show ?case by blast
next
  case (2 w targetName st name ver path queue visited found)
  let ?key = "name @ ''@'' @ ver"
  let ?st0 = "emit (Visit name ver) st"
  let ?P = "\<lambda>st0 visited0 found0 vis.
      visited_nodes st' = visited_nodes st0 @ vis
        \<and> distinct (map node_key vis) \<and> set (map node_key vis) \<inter> set visited0 = {}
        \<and> map matchVersion (matches res) =
            map matchVersion found0 @ map snd (filter (\<lambda>nv. fst nv = targetName) vis)"
  have v0: "visited_nodes ?st0 = visited_nodes st @ [(name, ver)]" by (simp add: visited_emit)
  have step: "?P st visited found ((name, ver) # vis)"
    if nv: "?key \<notin> set visited" and nt: "name \<noteq> targetName"
      and s1: "visited_nodes s1 = visited_nodes ?st0"
      and p: "?P s1 (visited @ [?key]) found vis" for s1 vis
    using nv nt s1 p v0 by (auto simp: node_key_def)
  show ?case
  proof (cases "?key \<in> set visited")
    case True
    with 2(6) have "traverse w targetName st queue visited found = (res, st')"
      by (simp add: traverse.simps)
    from 2(1) [OF refl True this] show ?thesis .
  next
    case nv: False
    show ?thesis
    proof (cases "length (visited @ [?key]) > maxNodes")
      case True
      with nv 2(6) have "res = \<lparr>matches = found, visitedCount = length (visited @ [?key]),
          truncated = True\<rparr>" "st' = st"
        by (simp_all add: traverse.simps)
      then have "?P st visited found []" by simp
      then show ?thesis by blast
    next
      case small: False
      show ?thesis
      proof (cases "name = targetName")
        case True
        with nv small 2(6) have "traverse w targetName ?st0 queue (visited @ [?key])
            (found @ [\<lparr>pathString = join '' > '' path, matchVersion = ver\<rparr>]) = (res, st')"
          by (simp add: traverse.simps)
        from 2(2) [OF refl nv small True this] obtain vis where
          p: "?P ?st0 (visited @ [?key])
                (found @ [\<lparr>pathString = join '' > '' path, matchVersion = ver\<rparr>]) vis"
          by blast
        with nv True v0 have "?P st visited found ((name, ver) # vis)"
          by (auto simp: node_key_def)
        then show ?thesis by blast
      next
        case nt: False
        obtain fr st1 where f: "fetchPackageMetadata w ?st0 name = (fr, st1)"
          by (cases "fetchPackageMetadata w ?st0 name")
        have v1: "visited_nodes st1 = visited_nodes ?st0"
          using nodes_fetch(1) [of w ?st0 name] f by simp
        show ?thesis
        proof (cases fr)
          case (Inl e)
          with nv small nt f 2(6) have
            "traverse w targetName st1 queue (visited @ [?key]) found = (res, st')"
            by (simp add: traverse.simps)
          from 2(3) [OF refl nv small nt f [symmetric] Inl this]
          obtain vis where "?P st1 (visited @ [?key]) found vis" by blast
          from step [OF nv nt v1 this] show ?thesis by blast
        next
          case (Inr meta)
          show ?thesis
          proof (cases "map_of (versions meta) ver")
            case None
            with Inr nv small nt f 2(6) have
              "traverse w targetName st1 queue (visited @ [?key]) found = (res, st')"
              by (simp add: traverse.simps)
            from 2(4) [OF refl nv small nt f [symmetric] Inr None this]
            obtain vis where "?P st1 (visited @ [?key]) found vis" by blast
            from step [OF nv nt v1 this] show ?thesis by blast
          next
            case (Some pkg)
            obtain children st2 where
              e: "enqueue_deps w (emit (Expand name ver) st1) path
                    (spread (dependencies pkg) (optionalDependencies pkg)) = (children, st2)"
              by (cases "enqueue_deps w (emit (Expand name ver) st1) path
                    (spread (dependencies pkg) (optionalDependencies pkg))")
            have v2: "visited_nodes st2 = visited_nodes ?st0"
              using nodes_enqueue [of w "emit (Expand name ver) st1" path
                  "spread (dependencies pkg) (optionalDependencies pkg)"] e v1
              by (simp add: visited_emit)
            from Some Inr nv small nt f e 2(6) have
              "traverse w targetName st2 (queue @ children) (visited @ [?key]) found = (res, st')"
              by (simp add: traverse.simps)
            from 2(5) [OF refl nv small nt f [symmetric] Inr Some e [symmetric] this]
            obtain vis where "?P st2 (visited @ [?key]) found vis" by blast
            from step [OF nv nt v2 this] show ?thesis by blast
          qed
        qed
      qed
    qed
  qed
qed

lemma traverse_expands:
  "\<exists>exp. expanded_nodes (snd (traverse w t st queue visited found)) = expanded_nodes st @ exp
        \<and> list_all (\<lambda>nv. fst nv \<noteq> t) exp"
proof (induction w t st queue visited found rule: traverse.induct)
  case (1 w targetName st visited found)
  have "expanded_nodes (snd (traverse w targetName st [] visited found)) = expanded_nodes st @ []
        \<and> list_all (\<lambda>nv. fst nv \<noteq> targetName) []"
    by (simp add: traverse.simps)
  then show ?case by blast
next
  case (2 w targetName st name ver path queue visited found)
  let ?key = "name @ ''@'' @ ver"
  let ?st0 = "emit (Visit name ver) st"
  let ?lhs = "expanded_nodes (snd (traverse w targetName st ((name, ver, path) # queue) visited found))"
  let ?ok = "list_all (\<lambda>nv. fst nv \<noteq> targetName)"
  have e0: "expanded_nodes ?st0 = expanded_nodes st" by (simp add: expanded_emit)
  show ?case
  proof (cases "?key \<in> set visited")
    case True
    with 2(1) [OF refl True] show ?thesis by (simp add: traverse.simps)
  next
    case nv: False
    show ?thesis
    proof (cases "length (visited @ [?key]) > maxNodes")
      case True
      with nv have "?lhs = expanded_nodes st @ [] \<and> ?ok []" by (simp add: traverse.simps)
      then show ?thesis by blast
    next
      case small: False
      show ?thesis
      proof (cases "name = targetName")
        case True
        with 2(2) [OF refl nv small True] nv small e0 show ?thesis
          by (simp add: traverse.simps)
      next
        case nt: False
        obtain fr st1 where f: "fetchPackageMetadata w ?st0 name = (fr, st1)"
          by (cases "fetchPackageMetadata w ?st0 name")
        have e1: "expanded_nodes st1 = expanded_nodes st"
          using nodes_fetch(2) [of w ?st0 name] f e0 by simp
        show ?thesis
        proof (cases fr)
          case (Inl e)
          with 2(3) [OF refl nv small nt f [symmetric] Inl] nv small nt f e1 show ?thesis
            by (simp add: traverse.simps)
        next
          case (Inr meta)
          show ?thesis
          proof (cases "map_of (versions meta) ver")
            case None
            with 2(4) [OF refl nv small nt f [symmetric] Inr None] Inr nv small nt f e1
            show ?thesis by (simp add: traverse.simps)
          next
            case (Some pkg)
            obtain children st2 where
              e: "enqueue_deps w (emit (Expand name ver) st1) path
                    (spread (dependencies pkg) (optionalDependencies pkg)) = (children, st2)"
              by (cases "enqueue_deps w (emit (Expand name ver) st1) path
                    (spread (dependencies pkg) (optionalDependencies pkg))")
            have e2: "expanded_nodes st2 = expanded_nodes st @ [(name, ver)]"
              using nodes_enqueue [of w "emit (Expand name ver) st1" path
                  "spread (dependencies pkg) (optionalDependencies pkg)"] e e1
              by (simp add: expanded_emit)
            from 2(5) [OF refl nv small nt f [symmetric] Inr Some e [symmetric]]
            obtain exp where
              x: "expanded_nodes (snd (traverse w targetName st2 (queue @ children)
                    (visited @ [?key]) found)) = expanded_nodes st2 @ exp" "?ok exp"
              by blast
            have "?lhs = expanded_nodes (snd (traverse w targetName st2 (queue @ children)
                    (visited @ [?key]) found))"
              using Some Inr nv small nt f e by (simp add: traverse.simps)
            with x e2 nt have "?lhs = expanded_nodes st @ ((name, ver) # exp)
                \<and> ?ok ((name, ver) # exp)"
              by simp
            then show ?thesis by blast
          qed
        qed
      qed
    qed
  qed
qed

section \<open>The maximum in a range\<close>

lemma range_test_valid: "range_test w inc rng v \<Longrightarrow> valid v"
  by (auto simp: range_test_def valid_def split: option.splits)

lemma valid_not_empty: "valid v \<Longrightarrow> v \<noteq> []"
proof
  assume "valid v" and "v = []"
  moreover have "parse_semver [] = None" by code_simp
  ultimately show False by (simp add: valid_def)
qed

lemma precedes_refl: "valid v \<Longrightarrow> precedes v v"
  by (simp add: precedes_iff)

lemma LT_precedes: "semver_compare a b = Inr LT \<Longrightarrow> precedes a b"
  by (simp add: precedes_def)

lemma not_LT_precedes:
  "valid a \<Longrightarrow> valid b \<Longrightarrow> semver_compare a b \<noteq> Inr LT \<Longrightarrow> precedes b a"
  by (simp add: precedes_iff compare_LT_iff)

lemma maxSatisfying_snoc:
  "maxSatisfying w (xs @ [x]) rng inc =
     maxSatisfying_step w inc rng (maxSatisfying w xs rng inc) x"
  by (simp add: maxSatisfying_def)

lemma maxSatisfying_spec:
  "(case maxSatisfying w vs rng inc of
      None \<Rightarrow> \<not> list_ex (range_test w inc rng) vs
    | Some m \<Rightarrow> is_maximum w inc rng vs m)"
proof (induction vs rule: rev_induct)
  case Nil
  then show ?case by (simp add: maxSatisfying_def)
next
  case (snoc x xs)
  show ?case
  proof (cases "range_test w inc rng x")
    case False
    with snoc show ?thesis
      by (auto simp: maxSatisfying_snoc maxSatisfying_step_def is_maximum_def list_ex_iff
          split: option.splits)
  next
    case True
    then have vx: "valid x" by (rule range_test_valid)
    show ?thesis
    proof (cases "maxSatisfying w xs rng inc")
      case None
      with snoc have "\<not> list_ex (range_test w inc rng) xs" by simp
      with True vx None show ?thesis
        by (auto simp: maxSatisfying_snoc maxSatisfying_step_def is_maximum_def list_ex_iff
            list_all_iff precedes_refl)
    next
      case (Some m)
      with snoc have m: "is_maximum w inc rng xs m" by simp
      then have vm: "valid m" by (auto simp: is_maximum_def dest: range_test_valid)
      show ?thesis
      proof (cases "semver_compare m x = Inr LT")
        case lt: True
        then have mx: "precedes m x" by (rule LT_precedes)
        have "is_maximum w inc rng (xs @ [x]) x"
          unfolding is_maximum_def list_all_iff
        proof (intro conjI ballI impI)
          show "x \<in> set (xs @ [x])" by simp
          show "range_test w inc rng x" by (rule True)
          fix v assume "v \<in> set (xs @ [x])" and t: "range_test w inc rng v"
          then consider "v = x" | "v \<in> set xs" by auto
          then show "precedes v x"
          proof cases
            case 1
            with vx show ?thesis by (simp add: precedes_refl)
          next
            case 2
            with m t have "precedes v m" by (auto simp: is_maximum_def list_all_iff)
            then show ?thesis using mx by (rule precedes_trans)
          qed
        qed
        with True Some lt show ?thesis
          by (simp add: maxSatisfying_snoc maxSatisfying_step_def)
      next
        case False
        with vm vx have xm: "precedes x m" by (rule not_LT_precedes)
        with m have "is_maximum w inc rng (xs @ [x]) m"
          by (auto simp: is_maximum_def list_all_iff)
        with True Some False show ?thesis
          by (simp add: maxSatisfying_snoc maxSatisfying_step_def)
      qed
    qed
  qed
qed

lemma maxSatisfying_truthy:
  "truthy (maxSatisfying w vs rng inc) \<longleftrightarrow> maxSatisfying w vs rng inc \<noteq> None"
proof (cases "maxSatisfying w vs rng inc")
  case None
  then show ?thesis by (simp add: truthy_def)
next
  case (Some m)
  with maxSatisfying_spec [where w = w and vs = vs and rng = rng and inc = inc] have "valid m"
    by (auto simp: is_maximum_def dest: range_test_valid)
  with Some show ?thesis by (simp add: truthy_def valid_not_empty)
qed

lemma or_null_maxSatisfying: "or_null (maxSatisfying w vs rng inc) = maxSatisfying w vs rng inc"
  using maxSatisfying_truthy [of w vs rng inc] by (auto simp: or_null_def truthy_def)

lemma resolveVersion_cached:
  "versionResolutionCache st (name @ ''@'' @ rng) = Some c \<Longrightarrow>
     resolveVersion w st name rng = (c, st)"
  by (simp add: resolveVersion_def)

lemma resolveVersion_caches:
  "resolveVersion w st name rng = (r, st1) \<Longrightarrow>
     versionResolutionCache st1 (name @ ''@'' @ rng) = Some r"
  by (auto simp: resolveVersion_def Let_def split: option.splits prod.splits sum.splits)

section \<open>The ceiling of the traversal\<close>


lemma chain_caches_emit [simp]: "chain_caches (emit e st) = chain_caches st"
  by (simp add: chain_caches_def emit_def)











section \<open>What the verdict compares\<close>

text \<open>
  When the analysis does not raise, the verdict of the two modes with a minimum is
  decided by the first match of every line; in removed mode without a minimum it is
  decided by the absence of lines.
\<close>

lemma lt_False_gte_True: "semver_lt a b = Inr False \<longleftrightarrow> semver_gte a b = Inr True"
  by (auto simp: semver_lt_def semver_gte_def split: sum.splits)

lemma lt_True_gte_False: "semver_lt a b = Inr True \<longleftrightarrow> semver_gte a b = Inr False"
  by (auto simp: semver_lt_def semver_gte_def split: sum.splits)

lemma analyze_lines_allValid:
  assumes "minVersion \<noteq> []" and "analyze_lines child minVersion lines acc = Inr r"
  shows "allValid r \<longleftrightarrow> allValid acc \<and> list_all (line_meets child minVersion) lines"
  using assms(2)
proof (induction lines arbitrary: acc)
  case Nil
  then show ?case by simp
next
  case (Cons line lines)
  show ?case
  proof (cases "line_match child line")
    case None
    with Cons.prems have "analyze_lines child minVersion lines acc = Inr r" by simp
    from Cons.IH [OF this] None show ?thesis by (simp add: line_meets_def)
  next
    case (Some dv)
    let ?lt = "semver_lt (normalizeVersion dv) (normalizeVersion minVersion)"
    from Cons.prems Some assms(1) obtain older where o: "?lt = Inr older"
      by (cases ?lt) auto
    show ?thesis
    proof (cases older)
      case True
      with o Cons.prems Some assms(1) have
        "analyze_lines child minVersion lines
           \<lparr>allValid = False, invalidVersions = invalidVersions acc @ [line]\<rparr> = Inr r"
        by simp
      from Cons.IH [OF this] have "\<not> allValid r" by simp
      moreover from o True have "\<not> line_meets child minVersion line"
        by (simp add: line_meets_def Some lt_True_gte_False)
      ultimately show ?thesis by simp
    next
      case False
      with o Cons.prems Some assms(1) have "analyze_lines child minVersion lines acc = Inr r"
        by simp
      from Cons.IH [OF this] o False Some show ?thesis
        by (simp add: line_meets_def lt_False_gte_True)
    qed
  qed
qed

lemma min_version_mode_verdict:
  assumes "childMin \<noteq> []" and "evaluate lines pv child childMin False = Inr d"
  shows "success d \<longleftrightarrow> lines \<noteq> [] \<and> list_all (line_meets child childMin) lines"
proof (cases "lines = []")
  case True
  with assms(2) show ?thesis by (auto simp: evaluate_def)
next
  case False
  with assms(2) obtain r where
    r: "analyze_lines child childMin lines \<lparr>allValid = True, invalidVersions = []\<rparr> = Inr r"
    by (cases "analyze_lines child childMin lines \<lparr>allValid = True, invalidVersions = []\<rparr>")
      (auto simp: evaluate_def analyzeVersionRequirements_def)
  from analyze_lines_allValid [OF assms(1) r]
  have "allValid r \<longleftrightarrow> list_all (line_meets child childMin) lines" by simp
  with False assms(2) r show ?thesis
    by (auto simp: evaluate_def analyzeVersionRequirements_def split: if_splits)
qed

lemma removed_or_min_version_mode_verdict:
  assumes "childMin \<noteq> []" and "evaluate lines pv child childMin True = Inr d"
  shows "success d \<longleftrightarrow> lines = [] \<or> list_all (line_meets child childMin) lines"
proof (cases "lines = []")
  case True
  with assms(2) show ?thesis by (auto simp: evaluate_def)
next
  case False
  with assms obtain r where
    r: "analyze_lines child childMin lines \<lparr>allValid = True, invalidVersions = []\<rparr> = Inr r"
    by (cases "analyze_lines child childMin lines \<lparr>allValid = True, invalidVersions = []\<rparr>")
      (auto simp: evaluate_def analyzeVersionRequirements_def)
  from analyze_lines_allValid [OF assms(1) r]
  have "allValid r \<longleftrightarrow> list_all (line_meets child childMin) lines" by simp
  with False assms r show ?thesis
    by (auto simp: evaluate_def analyzeVersionRequirements_def split: if_splits)
qed

lemma removed_mode_verdict:
  "\<exists>d. evaluate lines pv child [] True = Inr d \<and> success d = (lines = [])"
  by (simp add: evaluate_def)

section \<open>The verdict in min-version mode\<close>

text \<open>
  C1. In min-version mode (\<^verbatim>\<open>packageRemoved = false\<close>, a non-empty minimum \<open>V\<close>) the
  verdict should be success exactly when there is an occurrence and every occurrence's
  normalized version is at least the normalized \<open>V\<close>. The code does not compare the
  occurrence's version: it searches the path line for the first text of the shape
  \<^verbatim>\<open>name@version\<close> and compares that. In the registry \<open>suffix_world\<close> the only
  occurrence of \<^verbatim>\<open>lib\<close> under \<^verbatim>\<open>my-lib@1.0.0\<close> has version \<^verbatim>\<open>5.0.0\<close>, which is at least
  \<^verbatim>\<open>4.0.0\<close>, and the verdict is a failure, because the line starts with
  \<^verbatim>\<open>my-lib@1.0.0\<close>.
\<close>

theorem min_version_mode_compares_first_match:
  "fst (findChildOccurrencesInTree suffix_world fresh ''my-lib'' ''1.0.0'' ''lib'') =
     \<lparr>matches = [\<lparr>pathString = ''my-lib@1.0.0 > lib@5.0.0'', matchVersion = ''5.0.0''\<rparr>],
      visitedCount = 2, truncated = False\<rparr>
   \<and> semver_gte (normalizeVersion ''5.0.0'') (normalizeVersion ''4.0.0'') = Inr True
   \<and> line_match ''lib'' ''my-lib@1.0.0 > lib@5.0.0'' = Some ''1.0.0''
   \<and> fst (analyzePackageDependencies suffix_world fresh ''my-lib@1.0.0'' ''lib'' ''4.0.0'' False) =
     Inr \<lparr>success = False,
          message = ''Some instances of '' @ quoted ''lib'' @ '' are older than required:'',
          details = [''my-lib@1.0.0 > lib@5.0.0'']\<rparr>"
  by code_simp

section \<open>The verdict in the removed modes\<close>

text \<open>
  C2. With \<^verbatim>\<open>packageRemoved = true\<close> and a minimum \<open>V\<close> the verdict should be success
  exactly when there is no occurrence or every occurrence meets \<open>V\<close>. In the registry
  \<open>suffix_world_old\<close> the only occurrence of \<^verbatim>\<open>lib\<close> under \<^verbatim>\<open>my-lib@5.0.0\<close> has version
  \<^verbatim>\<open>1.0.0\<close>, which is below \<^verbatim>\<open>4.0.0\<close>, and the verdict is a success: the version compared
  is the \<^verbatim>\<open>5.0.0\<close> of the line's first match \<^verbatim>\<open>lib@5.0.0\<close> inside \<^verbatim>\<open>my-lib@5.0.0\<close>.
\<close>

theorem removed_or_min_version_mode_compares_first_match:
  "fst (findChildOccurrencesInTree suffix_world_old fresh ''my-lib'' ''5.0.0'' ''lib'') =
     \<lparr>matches = [\<lparr>pathString = ''my-lib@5.0.0 > lib@1.0.0'', matchVersion = ''1.0.0''\<rparr>],
      visitedCount = 2, truncated = False\<rparr>
   \<and> semver_gte (normalizeVersion ''1.0.0'') (normalizeVersion ''4.0.0'') = Inr False
   \<and> line_match ''lib'' ''my-lib@5.0.0 > lib@1.0.0'' = Some ''5.0.0''
   \<and> fst (analyzePackageDependencies suffix_world_old fresh ''my-lib@5.0.0'' ''lib'' ''4.0.0'' True) =
     Inr \<lparr>success = True,
          message = ''SUCCESS: Version 5.0.0 - ALL instances of '' @ quoted ''lib''
            @ '' meet the minimum version requirement (>= 4.0.0)''
            @ '' - minimum version condition satisfied.'',
          details = [''my-lib@5.0.0 > lib@1.0.0'']\<rparr>"
  by code_simp

section \<open>The order of the candidates\<close>

text \<open>
  C3, as the spec states it, ends with an example: for the versions \<^verbatim>\<open>1.0.0\<close>,
  \<^verbatim>\<open>1.0.0-beta.1\<close>, \<^verbatim>\<open>0.9.0\<close>, \<^verbatim>\<open>2.0.0\<close> and the floor \<^verbatim>\<open>1.0.0\<close> the candidates are said
  to be \<^verbatim>\<open>1.0.0\<close>, \<^verbatim>\<open>2.0.0\<close>, \<^verbatim>\<open>1.0.0-beta.1\<close>. They are not: \<^verbatim>\<open>1.0.0-beta.1\<close> precedes
  \<^verbatim>\<open>1.0.0\<close> and is filtered out by the floor.
\<close>

theorem candidate_order_counterexample:
  "candidates ''1.0.0'' [''1.0.0'', ''1.0.0-beta.1'', ''0.9.0'', ''2.0.0'']
     \<noteq> Inr [''1.0.0'', ''2.0.0'', ''1.0.0-beta.1'']"
  by code_simp

text \<open>
  C3, amended. Let the parent's manifest be fetched and let \<open>cs\<close> be the candidates for
  its keys and the floor \<^verbatim>\<open>parentMinVersion\<close>. Then \<open>cs\<close> is the versions without a
  pre-release tag followed by the pre-release versions, each part ascending in semver
  precedence; its elements are exactly the keys that meet the floor (every key when the
  floor is empty); the candidates a search logs are a prefix of \<open>cs\<close>, and all of \<open>cs\<close>
  when every candidate is rejected. For the versions of the example and the floor
  \<^verbatim>\<open>1.0.0\<close> the candidates are \<^verbatim>\<open>1.0.0\<close>, \<^verbatim>\<open>2.0.0\<close>.
\<close>

theorem candidate_order:
  assumes "fetchPackageMetadata w st (parentPackage p) = (Inr meta, st1)"
    and "candidates (parentMinVersion p) (map fst (versions meta)) = Inr cs"
    and "findCompatibleVersion w st p = (r, st')"
  shows "(\<exists>stable pre. cs = stable @ pre
            \<and> list_all (\<lambda>v. \<not> is_prerelease v) stable \<and> list_all is_prerelease pre
            \<and> sorted_wrt precedes stable \<and> sorted_wrt precedes pre)
       \<and> set cs = {v \<in> set (map fst (versions meta)).
                     meets_floor (parentMinVersion p) v = Inr True}
       \<and> (\<exists>n. checked st' = checked st @ map (\<lambda>v. parentPackage p @ ''@'' @ v) (take n cs))
       \<and> (\<forall>st2. reject_all w st1 p cs = Some st2 \<longrightarrow>
             st' = st2 \<and> \<not> success r
             \<and> checked st' = checked st @ map (\<lambda>v. parentPackage p @ ''@'' @ v) cs)
       \<and> candidates ''1.0.0'' [''1.0.0'', ''1.0.0-beta.1'', ''0.9.0'', ''2.0.0'']
           = Inr [''1.0.0'', ''2.0.0'']"
proof -
  obtain res s where s: "search w st p = (res, s)" by (cases "search w st p")
  with assms(3) have s': "s = st'"
    by (auto simp: findCompatibleVersion_def split: sum.splits)
  have prefix: "\<exists>n. checked st' = checked st @ map (\<lambda>v. parentPackage p @ ''@'' @ v) (take n cs)"
    using search_prefix [OF s assms(1,2)] s' by simp
  have all: "\<forall>st2. reject_all w st1 p cs = Some st2 \<longrightarrow>
             st' = st2 \<and> \<not> success r
             \<and> checked st' = checked st @ map (\<lambda>v. parentPackage p @ ''@'' @ v) cs"
  proof (intro allI impI)
    fix st2 assume rej: "reject_all w st1 p cs = Some st2"
    from search_all_rejected [OF assms(1,2) rej] obtain r' where
      r': "search w st p = (Inr r', st2)" "\<not> success r'" by blast
    with assms(3) have "r = r'" "st' = st2" by (simp_all add: findCompatibleVersion_def)
    moreover have "checked st1 = checked st"
      using checked_fetch [of w st "parentPackage p"] assms(1) by simp
    ultimately show "st' = st2 \<and> \<not> success r
             \<and> checked st' = checked st @ map (\<lambda>v. parentPackage p @ ''@'' @ v) cs"
      using r'(2) reject_all_checked [OF rej] by simp
  qed
  have ex: "candidates ''1.0.0'' [''1.0.0'', ''1.0.0-beta.1'', ''0.9.0'', ''2.0.0'']
           = Inr [''1.0.0'', ''2.0.0'']"
    by code_simp
  from candidates_shape [OF assms(2)] prefix all ex show ?thesis by blast
qed

theorem candidate_order_witness:
  "fst (fetchPackageMetadata upgrade_world fresh ''app'') =
      Inr \<lparr>versions =
               [(''2.0.0'', depends_on [(''dep'', ''2.0.0'')]),
                (''1.0.0'', depends_on [(''dep'', ''1.0.0'')]),
                (''3.0.0'', depends_on [(''dep'', ''2.0.0'')]),
                (''2.0.0-rc.1'', depends_on [(''dep'', ''1.0.0'')])]\<rparr>
   \<and> candidates [] [''2.0.0'', ''1.0.0'', ''3.0.0'', ''2.0.0-rc.1'']
        = Inr [''1.0.0'', ''2.0.0'', ''3.0.0'', ''2.0.0-rc.1'']
   \<and> (\<exists>n. checked (snd (findCompatibleVersion upgrade_world fresh upgrade_params)) =
            checked fresh @ map (\<lambda>v. ''app'' @ ''@'' @ v)
              (take n [''1.0.0'', ''2.0.0'', ''3.0.0'', ''2.0.0-rc.1'']))
   \<and> checked (snd (findCompatibleVersion upgrade_world fresh upgrade_params)) =
        [''app@1.0.0'', ''app@2.0.0'']"
proof -
  let ?meta = "\<lparr>versions =
               [(''2.0.0'', depends_on [(''dep'', ''2.0.0'')]),
                (''1.0.0'', depends_on [(''dep'', ''1.0.0'')]),
                (''3.0.0'', depends_on [(''dep'', ''2.0.0'')]),
                (''2.0.0-rc.1'', depends_on [(''dep'', ''1.0.0'')])]\<rparr>"
  have f: "fst (fetchPackageMetadata upgrade_world fresh ''app'') = Inr ?meta"
    by code_simp
  then have h1: "fetchPackageMetadata upgrade_world fresh (parentPackage upgrade_params) =
      (Inr ?meta, snd (fetchPackageMetadata upgrade_world fresh ''app''))"
    by (simp add: upgrade_params_def prod_eq_iff)
  have c: "candidates [] [''2.0.0'', ''1.0.0'', ''3.0.0'', ''2.0.0-rc.1'']
        = Inr [''1.0.0'', ''2.0.0'', ''3.0.0'', ''2.0.0-rc.1'']"
    by code_simp
  then have h2: "candidates (parentMinVersion upgrade_params) (map fst (versions ?meta))
        = Inr [''1.0.0'', ''2.0.0'', ''3.0.0'', ''2.0.0-rc.1'']"
    by (simp add: upgrade_params_def)
  have t: "checked (snd (findCompatibleVersion upgrade_world fresh upgrade_params)) =
        [''app@1.0.0'', ''app@2.0.0'']"
    by code_simp
  from candidate_order [OF h1 h2 prod.collapse [symmetric]] f c t show ?thesis
    by (simp add: upgrade_params_def)
qed

section \<open>The first success ends the search\<close>

text \<open>
  C7. When \<^verbatim>\<open>findCompatibleVersion\<close> returns a success, the candidates split into the
  ones before the returned version, that version and the ones after it; the ones before
  were analysed in order and each was rejected, the returned version was analysed next
  and accepted, and the state the search ends in is the state right after that
  analysis: the candidates logged are the ones before and the returned version, and
  nothing was fetched, traversed or evaluated for a later candidate.
\<close>

theorem first_success_wins:
  assumes "findCompatibleVersion w st p = (r, st')" and "success r"
  shows "\<exists>meta st1 cs pre v post st2 d.
           fetchPackageMetadata w st (parentPackage p) = (Inr meta, st1)
         \<and> candidates (parentMinVersion p) (map fst (versions meta)) = Inr cs
         \<and> cs = pre @ v # post
         \<and> reject_all w st1 p pre = Some st2
         \<and> analyze_candidate w st2 p v = (Inr d, st') \<and> success d
         \<and> version r = Some v \<and> details r = details d
         \<and> checked st' = checked st @ map (\<lambda>u. parentPackage p @ ''@'' @ u) (pre @ [v])"
proof -
  from assms have s: "search w st p = (Inr r, st')"
    by (auto simp: findCompatibleVersion_def split: sum.splits prod.splits)
  from search_success [OF s assms(2)] obtain meta st1 cs pre v post st2 d where
    h: "fetchPackageMetadata w st (parentPackage p) = (Inr meta, st1)"
       "candidates (parentMinVersion p) (map fst (versions meta)) = Inr cs"
       "cs = pre @ v # post" "reject_all w st1 p pre = Some st2"
       "analyze_candidate w st2 p v = (Inr d, st')" "success d"
       "version r = Some v" "details r = details d"
    by blast
  have "checked st1 = checked st"
    using checked_fetch [of w st "parentPackage p"] h(1) by simp
  with checked_after_prefix [OF h(4,5)]
  have "checked st' = checked st @ map (\<lambda>u. parentPackage p @ ''@'' @ u) (pre @ [v])"
    by simp
  with h show ?thesis by blast
qed

theorem first_success_wins_witness:
  "success (fst (findCompatibleVersion upgrade_world fresh upgrade_params))
   \<and> version (fst (findCompatibleVersion upgrade_world fresh upgrade_params)) = Some ''2.0.0''
   \<and> (\<exists>meta st1 cs pre v post st2 d.
           fetchPackageMetadata upgrade_world fresh ''app'' = (Inr meta, st1)
         \<and> candidates [] (map fst (versions meta)) = Inr cs
         \<and> cs = pre @ v # post
         \<and> reject_all upgrade_world st1 upgrade_params pre = Some st2
         \<and> analyze_candidate upgrade_world st2 upgrade_params v =
             (Inr d, snd (findCompatibleVersion upgrade_world fresh upgrade_params))
         \<and> success d
         \<and> version (fst (findCompatibleVersion upgrade_world fresh upgrade_params)) = Some v
         \<and> checked (snd (findCompatibleVersion upgrade_world fresh upgrade_params)) =
             checked fresh @ map (\<lambda>u. ''app'' @ ''@'' @ u) (pre @ [v]))"
proof -
  have s: "success (fst (findCompatibleVersion upgrade_world fresh upgrade_params))"
    by code_simp
  have v: "version (fst (findCompatibleVersion upgrade_world fresh upgrade_params)) = Some ''2.0.0''"
    by code_simp
  from first_success_wins [OF prod.collapse [symmetric] s] s v show ?thesis
    by (simp add: upgrade_params_def) blast
qed

section \<open>Validation\<close>

text \<open>
  C5, as the spec states it, has \<^verbatim>\<open>findCompatibleVersion\<close> itself reject a request
  without a package name or without the minimum that min-version mode needs, before any
  search. It does not: called with an empty target name it fetches the parent, traverses
  the first candidate's tree and reports that no compatible version was found.
\<close>

theorem search_does_not_validate:
  "fst (findCompatibleVersion suffix_world fresh no_child_params) =
     failure ''No compatible version found for the given requirements''
   \<and> trace (snd (findCompatibleVersion suffix_world fresh no_child_params)) =
     [Fetch ''my-lib'', Checking ''my-lib@1.0.0'', Visit ''my-lib'' ''1.0.0'',
      Expand ''my-lib'' ''1.0.0'', Fetch ''lib'', Visit ''lib'' ''5.0.0'',
      Expand ''lib'' ''5.0.0'']"
  by code_simp

text \<open>
  C5, amended. The validation is in the HTTP route: when the parent or the child package
  name is missing, or \<^verbatim>\<open>packageRemoved\<close> is false and \<^verbatim>\<open>childMinVersion\<close> is empty, \<^verbatim>\<open>POST\<close>
  answers with a 400 error and does not call \<^verbatim>\<open>findCompatibleVersion\<close>: the state, and with
  it the log of fetches and traversals, is unchanged.
\<close>

theorem route_validates_before_search:
  assumes "parentPackage body = [] \<or> childPackage body = []
           \<or> (\<not> packageRemoved body \<and> childMinVersion body = [])"
  shows "\<exists>msg. POST w st body = (BadRequest msg, st)"
  using assms by (auto simp: POST_def)

theorem route_validates_before_search_witness:
  "childPackage no_child_params = []
   \<and> (\<exists>msg. POST suffix_world fresh no_child_params = (BadRequest msg, fresh))"
proof -
  have h: "childPackage no_child_params = []" by (simp add: no_child_params_def)
  then have "parentPackage no_child_params = [] \<or> childPackage no_child_params = []
           \<or> (\<not> packageRemoved no_child_params \<and> childMinVersion no_child_params = [])"
    by simp
  from route_validates_before_search [OF this] h show ?thesis by simp
qed

section \<open>Failures are results\<close>

text \<open>
  C9. \<^verbatim>\<open>findCompatibleVersion\<close> is a total function into \<^verbatim>\<open>SearchResult\<close>: every exception
  raised in its \<^verbatim>\<open>try\<close> block becomes the failure result with the message
  \<^verbatim>\<open>Error during search:\<close> and the error's text. In particular a failed fetch of the
  parent's own manifest ends the search with that result. In the traversal a failed
  fetch of a node's manifest is swallowed: the loop goes on with the rest of the queue;
  and a failed fetch while a dependency's range is resolved gives no version instead of
  an error.
\<close>

theorem failures_are_results:
  "(search w st p = (Inl e, st') \<longrightarrow>
      findCompatibleVersion w st p = (failure (''Error during search: '' @ error_message e), st'))
   \<and> (packageMetaCache st (parentPackage p) = None \<and> registry w (parentPackage p) = None \<longrightarrow>
        fst (findCompatibleVersion w st p) =
          failure (''Error during search: Failed to fetch metadata for '' @ parentPackage p))
   \<and> (name @ ''@'' @ ver \<notin> set visited \<and> length visited < maxNodes \<and> name \<noteq> targetName
        \<and> fetchPackageMetadata w (emit (Visit name ver) st) name = (Inl e, st1) \<longrightarrow>
        traverse w targetName st ((name, ver, path) # queue) visited found =
          traverse w targetName st1 queue (visited @ [name @ ''@'' @ ver]) found)
   \<and> (versionResolutionCache st (name @ ''@'' @ rng) = None
        \<and> fst (fetchPackageMetadata w st name) = Inl e \<longrightarrow>
        fst (resolveVersion w st name rng) = None)"
proof (intro conjI impI)
  assume "search w st p = (Inl e, st')"
  then show "findCompatibleVersion w st p =
      (failure (''Error during search: '' @ error_message e), st')"
    by (simp add: findCompatibleVersion_def)
next
  assume a: "packageMetaCache st (parentPackage p) = None \<and> registry w (parentPackage p) = None"
  then have "fetchPackageMetadata w st (parentPackage p) =
      (Inl (FetchFailed (parentPackage p)), emit (Fetch (parentPackage p)) st)"
    by (simp add: fetch_parent_fails)
  then show "fst (findCompatibleVersion w st p) =
      failure (''Error during search: Failed to fetch metadata for '' @ parentPackage p)"
    by (simp add: findCompatibleVersion_def search_def getPackageVersions_def)
next
  assume "name @ ''@'' @ ver \<notin> set visited \<and> length visited < maxNodes \<and> name \<noteq> targetName
        \<and> fetchPackageMetadata w (emit (Visit name ver) st) name = (Inl e, st1)"
  then show "traverse w targetName st ((name, ver, path) # queue) visited found =
          traverse w targetName st1 queue (visited @ [name @ ''@'' @ ver]) found"
    by (simp add: traverse.simps)
next
  assume a: "versionResolutionCache st (name @ ''@'' @ rng) = None
        \<and> fst (fetchPackageMetadata w st name) = Inl e"
  obtain fr s where f: "fetchPackageMetadata w st name = (fr, s)"
    by (cases "fetchPackageMetadata w st name")
  with a have "fr = Inl e" by simp
  with a f show "fst (resolveVersion w st name rng) = None"
    by (simp add: resolveVersion_def)
qed

theorem failures_are_results_witness:
  "findCompatibleVersion flaky_world fresh missing_parent_params =
     (failure (''Error during search: '' @ error_message (FetchFailed ''nothing'')),
      snd (search flaky_world fresh missing_parent_params))
   \<and> fst (findCompatibleVersion flaky_world fresh missing_parent_params) =
       failure ''Error during search: Failed to fetch metadata for nothing''
   \<and> traverse flaky_world ''dep'' fresh
        [(''gone'', ''1.0.0'', [''app@1.0.0'', ''gone@1.0.0'']),
         (''dep'', ''2.0.0'', [''app@1.0.0'', ''dep@2.0.0''])] [] [] =
       traverse flaky_world ''dep'' (emit (Fetch ''gone'') (emit (Visit ''gone'' ''1.0.0'') fresh))
        [(''dep'', ''2.0.0'', [''app@1.0.0'', ''dep@2.0.0''])] [''gone@1.0.0''] []
   \<and> fst (resolveVersion flaky_world fresh ''gone'' ''*'') = None
   \<and> success (fst (findCompatibleVersion flaky_world stale upgrade_params))"
proof -
  note T1 = failures_are_results [where w = flaky_world and st = fresh
      and p = missing_parent_params and e = "FetchFailed ''nothing''"
      and st' = "snd (search flaky_world fresh missing_parent_params)"]
  note T2 = failures_are_results [where w = flaky_world and st = fresh
      and e = "FetchFailed ''gone''" and name = "''gone''" and ver = "''1.0.0''"
      and visited = "[]" and targetName = "''dep''"
      and ?st1.0 = "emit (Fetch ''gone'') (emit (Visit ''gone'' ''1.0.0'') fresh)"
      and path = "[''app@1.0.0'', ''gone@1.0.0'']"
      and queue = "[(''dep'', ''2.0.0'', [''app@1.0.0'', ''dep@2.0.0''])]"
      and found = "[]" and rng = "''*''"]
  have s: "fst (search flaky_world fresh missing_parent_params) = Inl (FetchFailed ''nothing'')"
    by code_simp
  then have h1: "search flaky_world fresh missing_parent_params =
      (Inl (FetchFailed ''nothing''), snd (search flaky_world fresh missing_parent_params))"
    by (simp add: prod_eq_iff)
  have h2: "packageMetaCache fresh (parentPackage missing_parent_params) = None
      \<and> registry flaky_world (parentPackage missing_parent_params) = None"
    by (simp add: fresh_def missing_parent_params_def flaky_world_def)
  have "fetchPackageMetadata flaky_world (emit (Visit ''gone'' ''1.0.0'') fresh) ''gone'' =
      (Inl (FetchFailed ''gone''), emit (Fetch ''gone'') (emit (Visit ''gone'' ''1.0.0'') fresh))"
    by (rule fetch_parent_fails) (simp_all add: fresh_def emit_def flaky_world_def)
  then have h3: "''gone'' @ ''@'' @ ''1.0.0'' \<notin> set [] \<and> length ([] :: string list) < maxNodes
      \<and> ''gone'' \<noteq> ''dep''
      \<and> fetchPackageMetadata flaky_world (emit (Visit ''gone'' ''1.0.0'') fresh) ''gone'' =
      (Inl (FetchFailed ''gone''), emit (Fetch ''gone'') (emit (Visit ''gone'' ''1.0.0'') fresh))"
    by (simp add: maxNodes_def)
  have h4: "versionResolutionCache fresh (''gone'' @ ''@'' @ ''*'') = None
      \<and> fst (fetchPackageMetadata flaky_world fresh ''gone'') = Inl (FetchFailed ''gone'')"
    by (simp add: fresh_def fetchPackageMetadata_def flaky_world_def)
  have h5: "success (fst (findCompatibleVersion flaky_world stale upgrade_params))"
    by code_simp
  from T1 h1 h2 have c12:
    "findCompatibleVersion flaky_world fresh missing_parent_params =
       (failure (''Error during search: '' @ error_message (FetchFailed ''nothing'')),
        snd (search flaky_world fresh missing_parent_params))
     \<and> fst (findCompatibleVersion flaky_world fresh missing_parent_params) =
       failure ''Error during search: Failed to fetch metadata for nothing''"
    by (simp add: missing_parent_params_def)
  from T2 h3 h4 have c34:
    "traverse flaky_world ''dep'' fresh
        [(''gone'', ''1.0.0'', [''app@1.0.0'', ''gone@1.0.0'']),
         (''dep'', ''2.0.0'', [''app@1.0.0'', ''dep@2.0.0''])] [] [] =
       traverse flaky_world ''dep'' (emit (Fetch ''gone'') (emit (Visit ''gone'' ''1.0.0'') fresh))
        [(''dep'', ''2.0.0'', [''app@1.0.0'', ''dep@2.0.0''])] [''gone@1.0.0''] []
     \<and> fst (resolveVersion flaky_world fresh ''gone'' ''*'') = None"
    by simp
  from c12 c34 h5 show ?thesis by blast
qed

section \<open>Min-version mode without a minimum\<close>

text \<open>
  C10. Let \<^verbatim>\<open>findCompatibleVersion\<close> be called with \<^verbatim>\<open>packageRemoved = false\<close> and an empty
  \<^verbatim>\<open>childMinVersion\<close>, for a parent with a name, a target name without regular-expression
  metacharacters and candidates that contain no \<^verbatim>\<open>@\<close>. Then no version is compared: every
  non-empty list of occurrence lines is a success. The search returns a success exactly
  when some candidate's tree contains the target, with the first such candidate in
  candidate order as its version, and ends in the state after that candidate's
  traversal.
\<close>

theorem unchecked_minimum_accepts_any_occurrence:
  assumes "\<not> packageRemoved p" and "childMinVersion p = []" and "parentPackage p \<noteq> []"
    and "plain_name (childPackage p)"
    and "fetchPackageMetadata w st (parentPackage p) = (Inr meta, st1)"
    and "candidates (parentMinVersion p) (map fst (versions meta)) = Inr cs"
    and "list_all (\<lambda>v. CHR ''@'' \<notin> set v) cs"
    and "first_with_occurrence w st1 (parentPackage p) (childPackage p) cs = (found, st')"
  shows "(\<forall>lines pv. lines \<noteq> [] \<longrightarrow>
            (\<exists>d. evaluate lines pv (childPackage p) (childMinVersion p) (packageRemoved p) = Inr d
                  \<and> success d \<and> details d = lines))
       \<and> snd (findCompatibleVersion w st p) = st'
       \<and> success (fst (findCompatibleVersion w st p)) = (found \<noteq> None)
       \<and> version (fst (findCompatibleVersion w st p)) = found"
proof -
  let ?keys = "map fst (versions meta)"
  from assms(6) obtain vs where vs: "sort_versions ?keys = Inr vs"
    by (cases "sort_versions ?keys") (auto simp: candidates_def)
  from assms(6) vs obtain fv where fv: "filter_versions (parentMinVersion p) vs = Inr fv"
    by (cases "filter_versions (parentMinVersion p) vs") (auto simp: candidates_def)
  let ?stable = "filter (\<lambda>v. \<not> is_prerelease v) fv"
  let ?pre = "filter is_prerelease fv"
  have cs: "cs = ?stable @ ?pre" using assms(6) vs fv by (simp add: candidates_def)
  with assms(7) have ok: "list_all (\<lambda>v. CHR ''@'' \<notin> set v) ?stable"
    "list_all (\<lambda>v. CHR ''@'' \<notin> set v) ?pre"
    by simp_all
  have ev: "\<forall>lines pv. lines \<noteq> [] \<longrightarrow>
            (\<exists>d. evaluate lines pv (childPackage p) (childMinVersion p) (packageRemoved p) = Inr d
                  \<and> success d \<and> details d = lines)"
    using assms(1,2) by (simp add: evaluate_no_minimum)
  have res: "snd (findCompatibleVersion w st p) = st'
       \<and> success (fst (findCompatibleVersion w st p)) = (found \<noteq> None)
       \<and> version (fst (findCompatibleVersion w st p)) = found"
  proof (cases "fv = []")
    case True
    with cs assms(8) have f: "found = None" "st' = st1" by simp_all
    show ?thesis
    proof (cases "vs = []")
      case True
      with assms(5) vs f show ?thesis
        by (simp add: findCompatibleVersion_def search_def getPackageVersions_def failure_def)
    next
      case False
      with True assms(5) vs fv f show ?thesis
        by (simp add: findCompatibleVersion_def search_def getPackageVersions_def failure_def)
    qed
  next
    case False
    then have vne: "vs \<noteq> []" using fv by auto
    obtain f1 sa where f1: "first_with_occurrence w st1 (parentPackage p) (childPackage p) ?stable
        = (f1, sa)"
      by (cases "first_with_occurrence w st1 (parentPackage p) (childPackage p) ?stable")
    note c1 = check_versions_no_minimum [OF assms(1,2,3) ok(1) f1, of "''stable''"]
    show ?thesis
    proof (cases f1)
      case (Some v)
      with f1 assms(8) cs have f: "found = Some v" "st' = sa"
        by (simp_all add: first_with_occurrence_append)
      from c1 Some obtain r where
        r: "check_versions w st1 p ''stable'' ?stable = (Inr (Some r), sa)" "success r"
           "version r = Some v"
        by auto
      with False vne assms(5) vs fv f show ?thesis
        by (simp add: findCompatibleVersion_def search_def getPackageVersions_def)
    next
      case None
      with c1 have l1: "check_versions w st1 p ''stable'' ?stable = (Inr None, sa)" by simp
      from None f1 assms(8) cs have
        f2: "first_with_occurrence w sa (parentPackage p) (childPackage p) ?pre = (found, st')"
        by (simp add: first_with_occurrence_append)
      note c2 = check_versions_no_minimum [OF assms(1,2,3) ok(2) f2, of "''pre-release''"]
      show ?thesis
      proof (cases found)
        case n2: None
        with c2 have "check_versions w sa p ''pre-release'' ?pre = (Inr None, st')" by simp
        with l1 n2 False vne assms(5) vs fv show ?thesis
          by (simp add: findCompatibleVersion_def search_def getPackageVersions_def failure_def)
      next
        case (Some v)
        with c2 obtain r where
          r: "check_versions w sa p ''pre-release'' ?pre = (Inr (Some r), st')" "success r"
             "version r = Some v"
          by auto
        with l1 Some False vne assms(5) vs fv show ?thesis
          by (simp add: findCompatibleVersion_def search_def getPackageVersions_def)
      qed
    qed
  qed
  from ev res show ?thesis by blast
qed

theorem unchecked_minimum_accepts_any_occurrence_witness:
  "\<not> packageRemoved any_version_params \<and> childMinVersion any_version_params = []
   \<and> parentPackage any_version_params \<noteq> [] \<and> plain_name (childPackage any_version_params)
   \<and> candidates [] [''2.0.0'', ''1.0.0'', ''3.0.0'', ''2.0.0-rc.1'']
        = Inr [''1.0.0'', ''2.0.0'', ''3.0.0'', ''2.0.0-rc.1'']
   \<and> fst (first_with_occurrence upgrade_world
            (snd (fetchPackageMetadata upgrade_world fresh ''app'')) ''app'' ''dep''
            [''1.0.0'', ''2.0.0'', ''3.0.0'', ''2.0.0-rc.1'']) = Some ''1.0.0''
   \<and> success (fst (findCompatibleVersion upgrade_world fresh any_version_params))
   \<and> version (fst (findCompatibleVersion upgrade_world fresh any_version_params)) = Some ''1.0.0''
   \<and> (\<exists>d. evaluate [''app@1.0.0 > dep@1.0.0''] ''1.0.0'' ''dep'' [] False = Inr d \<and> success d)"
proof -
  let ?meta = "\<lparr>versions =
               [(''2.0.0'', depends_on [(''dep'', ''2.0.0'')]),
                (''1.0.0'', depends_on [(''dep'', ''1.0.0'')]),
                (''3.0.0'', depends_on [(''dep'', ''2.0.0'')]),
                (''2.0.0-rc.1'', depends_on [(''dep'', ''1.0.0'')])]\<rparr>"
  let ?cs = "[''1.0.0'', ''2.0.0'', ''3.0.0'', ''2.0.0-rc.1'']"
  let ?st1 = "snd (fetchPackageMetadata upgrade_world fresh ''app'')"
  have a1: "\<not> packageRemoved any_version_params" by (simp add: any_version_params_def)
  have a2: "childMinVersion any_version_params = []" by (simp add: any_version_params_def)
  have a3: "parentPackage any_version_params \<noteq> []" by (simp add: any_version_params_def)
  have a4: "plain_name (childPackage any_version_params)" by code_simp
  have "fst (fetchPackageMetadata upgrade_world fresh ''app'') = Inr ?meta" by code_simp
  then have a5: "fetchPackageMetadata upgrade_world fresh (parentPackage any_version_params) =
      (Inr ?meta, ?st1)"
    by (simp add: any_version_params_def prod_eq_iff)
  have c: "candidates [] [''2.0.0'', ''1.0.0'', ''3.0.0'', ''2.0.0-rc.1''] = Inr ?cs"
    by code_simp
  then have a6: "candidates (parentMinVersion any_version_params) (map fst (versions ?meta))
      = Inr ?cs"
    by (simp add: any_version_params_def)
  have a7: "list_all (\<lambda>v. CHR ''@'' \<notin> set v) ?cs" by simp
  have f: "fst (first_with_occurrence upgrade_world ?st1 ''app'' ''dep'' ?cs) = Some ''1.0.0''"
    by code_simp
  then have a8: "first_with_occurrence upgrade_world ?st1 (parentPackage any_version_params)
      (childPackage any_version_params) ?cs =
      (Some ''1.0.0'', snd (first_with_occurrence upgrade_world ?st1 ''app'' ''dep'' ?cs))"
    by (simp add: any_version_params_def prod_eq_iff)
  note T = unchecked_minimum_accepts_any_occurrence [OF a1 a2 a3 a4 a5 a6 a7 a8]
  from T have "success (fst (findCompatibleVersion upgrade_world fresh any_version_params))"
    and "version (fst (findCompatibleVersion upgrade_world fresh any_version_params)) = Some ''1.0.0''"
    by simp_all
  moreover have
    "\<exists>d. evaluate [''app@1.0.0 > dep@1.0.0''] ''1.0.0'' ''dep'' [] False = Inr d \<and> success d"
    using T [THEN conjunct1, rule_format, of "[''app@1.0.0 > dep@1.0.0'']" "''1.0.0''"]
    by (auto simp: any_version_params_def)
  ultimately show ?thesis using a1 a2 a3 a4 c f by blast
qed

section \<open>Invariants of the traversal\<close>

text \<open>
  C8. In one call of \<^verbatim>\<open>findChildOccurrencesInTree\<close> no pair of a package name and a
  version is processed twice; no node with the name of the target has its dependencies
  looped over; and the occurrences returned are exactly the processed nodes with the
  name of the target, in order.
\<close>

theorem traversal_invariants:
  assumes "findChildOccurrencesInTree w st rootName rootVersion targetName = (res, st')"
  shows "\<exists>vis exp.
           visited_nodes st' = visited_nodes st @ vis
         \<and> expanded_nodes st' = expanded_nodes st @ exp
         \<and> distinct vis
         \<and> list_all (\<lambda>nv. fst nv \<noteq> targetName) exp
         \<and> map matchVersion (matches res) = map snd (filter (\<lambda>nv. fst nv = targetName) vis)"
proof -
  from assms have t: "traverse w targetName st
      [(rootName, rootVersion, [rootName @ ''@'' @ rootVersion])] [] [] = (res, st')"
    by (simp add: findChildOccurrencesInTree_def)
  from traverse_visits [OF t] obtain vis where
    v: "visited_nodes st' = visited_nodes st @ vis" "distinct (map node_key vis)"
       "map matchVersion (matches res) = map snd (filter (\<lambda>nv. fst nv = targetName) vis)"
    by auto
  from v(2) have d: "distinct vis" by (simp add: distinct_map)
  from traverse_expands [of w targetName st
      "[(rootName, rootVersion, [rootName @ ''@'' @ rootVersion])]" "[]" "[]"] t
  obtain exp where
    x: "expanded_nodes st' = expanded_nodes st @ exp" "list_all (\<lambda>nv. fst nv \<noteq> targetName) exp"
    by auto
  from v(1,3) d x show ?thesis by blast
qed

theorem traversal_invariants_witness:
  "visited_nodes (snd (findChildOccurrencesInTree diamond_world fresh ''top'' ''1.0.0'' ''target''))
     = [(''top'', ''1.0.0''), (''left'', ''1.0.0''), (''right'', ''1.0.0''),
        (''shared'', ''1.0.0''), (''target'', ''1.0.0'')]
   \<and> expanded_nodes (snd (findChildOccurrencesInTree diamond_world fresh ''top'' ''1.0.0'' ''target''))
     = [(''top'', ''1.0.0''), (''left'', ''1.0.0''), (''right'', ''1.0.0''), (''shared'', ''1.0.0'')]
   \<and> (\<exists>vis exp.
         visited_nodes (snd (findChildOccurrencesInTree diamond_world fresh ''top'' ''1.0.0'' ''target''))
           = visited_nodes fresh @ vis
       \<and> expanded_nodes (snd (findChildOccurrencesInTree diamond_world fresh ''top'' ''1.0.0'' ''target''))
           = expanded_nodes fresh @ exp
       \<and> distinct vis
       \<and> list_all (\<lambda>nv. fst nv \<noteq> ''target'') exp
       \<and> map matchVersion
           (matches (fst (findChildOccurrencesInTree diamond_world fresh ''top'' ''1.0.0'' ''target'')))
         = map snd (filter (\<lambda>nv. fst nv = ''target'') vis))"
proof -
  have a: "visited_nodes (snd (findChildOccurrencesInTree diamond_world fresh ''top'' ''1.0.0'' ''target''))
     = [(''top'', ''1.0.0''), (''left'', ''1.0.0''), (''right'', ''1.0.0''),
        (''shared'', ''1.0.0''), (''target'', ''1.0.0'')]"
    by code_simp
  have b: "expanded_nodes (snd (findChildOccurrencesInTree diamond_world fresh ''top'' ''1.0.0'' ''target''))
     = [(''top'', ''1.0.0''), (''left'', ''1.0.0''), (''right'', ''1.0.0''), (''shared'', ''1.0.0'')]"
    by code_simp
  from traversal_invariants [OF prod.collapse [symmetric],
      of diamond_world fresh "''top''" "''1.0.0''" "''target''"] a b
  show ?thesis by blast
qed

section \<open>The range resolver\<close>

text \<open>
  C6. A call of \<^verbatim>\<open>resolveVersion\<close> leaves its result in the resolution cache under the
  pair's key, so that the same call made again returns the same result and changes
  nothing: no request is sent. When the key is not yet in the cache, the result is
  null if the package's metadata cannot be fetched; otherwise, with the keys of the
  metadata as the version set, it is a maximum of the versions without a pre-release
  tag that satisfy the range, if there is one; else a maximum of all versions that
  satisfy the range with pre-releases included, if there is one; else null.
\<close>

theorem resolveVersion_maximum_memoized:
  assumes "resolveVersion w st name rng = (r, st1)"
  shows "resolveVersion w st1 name rng = (r, st1)
       \<and> (versionResolutionCache st (name @ ''@'' @ rng) = None \<longrightarrow>
            (case fst (fetchPackageMetadata w st name) of
               Inl e \<Rightarrow> r = None
             | Inr meta \<Rightarrow>
                 (if list_ex (range_test w False rng)
                       (filter (\<lambda>v. \<not> is_prerelease v) (map fst (versions meta)))
                  then \<exists>m. r = Some m
                         \<and> is_maximum w False rng
                             (filter (\<lambda>v. \<not> is_prerelease v) (map fst (versions meta))) m
                  else if list_ex (range_test w True rng) (map fst (versions meta))
                  then \<exists>m. r = Some m \<and> is_maximum w True rng (map fst (versions meta)) m
                  else r = None)))"
proof (intro conjI impI)
  from assms have "versionResolutionCache st1 (name @ ''@'' @ rng) = Some r"
    by (rule resolveVersion_caches)
  then show "resolveVersion w st1 name rng = (r, st1)"
    by (rule resolveVersion_cached)
next
  assume fresh_key: "versionResolutionCache st (name @ ''@'' @ rng) = None"
  obtain fr st0 where f: "fetchPackageMetadata w st name = (fr, st0)"
    by (cases "fetchPackageMetadata w st name")
  show "case fst (fetchPackageMetadata w st name) of
               Inl e \<Rightarrow> r = None
             | Inr meta \<Rightarrow>
                 (if list_ex (range_test w False rng)
                       (filter (\<lambda>v. \<not> is_prerelease v) (map fst (versions meta)))
                  then \<exists>m. r = Some m
                         \<and> is_maximum w False rng
                             (filter (\<lambda>v. \<not> is_prerelease v) (map fst (versions meta))) m
                  else if list_ex (range_test w True rng) (map fst (versions meta))
                  then \<exists>m. r = Some m \<and> is_maximum w True rng (map fst (versions meta)) m
                  else r = None)"
  proof (cases fr)
    case (Inl e)
    with assms fresh_key f show ?thesis by (simp add: resolveVersion_def)
  next
    case (Inr meta)
    let ?vs = "map fst (versions meta)"
    let ?stable = "filter (\<lambda>v. \<not> is_prerelease v) ?vs"
    let ?m1 = "maxSatisfying w ?stable rng False"
    let ?m2 = "maxSatisfying w ?vs rng True"
    have eq: "or_null (if truthy ?m1 then ?m1 else ?m2) = (if ?m1 \<noteq> None then ?m1 else ?m2)"
      by (simp add: maxSatisfying_truthy or_null_maxSatisfying)
    have r0: "r = or_null (if truthy ?m1 then ?m1 else ?m2)"
      using assms fresh_key f Inr by (auto simp: resolveVersion_def Let_def)
    have r: "r = (if ?m1 \<noteq> None then ?m1 else ?m2)"
      unfolding r0 by (rule eq)
    note s1 = maxSatisfying_spec [where w = w and vs = ?stable and rng = rng and inc = False]
    note s2 = maxSatisfying_spec [where w = w and vs = ?vs and rng = rng and inc = True]
    show ?thesis
    proof (cases ?m1)
      case (Some m)
      with s1 have "is_maximum w False rng ?stable m" by simp
      moreover then have "list_ex (range_test w False rng) ?stable"
        by (auto simp: is_maximum_def list_ex_iff)
      ultimately show ?thesis using r Some f Inr by simp
    next
      case None
      with s1 have n1: "\<not> list_ex (range_test w False rng) ?stable" by simp
      show ?thesis
      proof (cases ?m2)
        case (Some m)
        with s2 have "is_maximum w True rng ?vs m" by simp
        moreover then have "list_ex (range_test w True rng) ?vs"
          by (auto simp: is_maximum_def list_ex_iff)
        ultimately show ?thesis using r None Some n1 f Inr by simp
      next
        case n2: None
        with s2 have "\<not> list_ex (range_test w True rng) ?vs" by simp
        with r None n2 n1 f Inr show ?thesis by simp
      qed
    qed
  qed
qed

theorem resolveVersion_maximum_memoized_witness:
  "fst (resolveVersion prerelease_world fresh ''pre'' ''*'') = Some ''1.0.0-beta''
   \<and> resolveVersion prerelease_world (snd (resolveVersion prerelease_world fresh ''pre'' ''*''))
        ''pre'' ''*'' =
       (Some ''1.0.0-beta'', snd (resolveVersion prerelease_world fresh ''pre'' ''*''))
   \<and> trace (snd (resolveVersion prerelease_world fresh ''pre'' ''*'')) = [Fetch ''pre'']
   \<and> (\<exists>m. fst (resolveVersion prerelease_world fresh ''pre'' ''*'') = Some m
          \<and> is_maximum prerelease_world True ''*'' [''1.0.0-beta'', ''1.0.0-alpha''] m)"
proof -
  let ?st1 = "snd (resolveVersion prerelease_world fresh ''pre'' ''*'')"
  let ?meta = "\<lparr>versions = [(''1.0.0-beta'', no_deps), (''1.0.0-alpha'', no_deps)]\<rparr>"
  have a: "fst (resolveVersion prerelease_world fresh ''pre'' ''*'') = Some ''1.0.0-beta''"
    by code_simp
  then have h: "resolveVersion prerelease_world fresh ''pre'' ''*'' = (Some ''1.0.0-beta'', ?st1)"
    by (simp add: prod_eq_iff)
  have t: "trace ?st1 = [Fetch ''pre'']" by code_simp
  have k: "versionResolutionCache fresh (''pre'' @ ''@'' @ ''*'') = None"
    by (simp add: fresh_def)
  have f: "fst (fetchPackageMetadata prerelease_world fresh ''pre'') = Inr ?meta"
    by code_simp
  have n1: "\<not> list_ex (range_test prerelease_world False ''*'')
      (filter (\<lambda>v. \<not> is_prerelease v) (map fst (versions ?meta)))"
    by code_simp
  have n2: "list_ex (range_test prerelease_world True ''*'') (map fst (versions ?meta))"
    by code_simp
  note T = resolveVersion_maximum_memoized [OF h]
  from T have memo: "resolveVersion prerelease_world ?st1 ''pre'' ''*'' = (Some ''1.0.0-beta'', ?st1)"
    by (rule conjunct1)
  from T [THEN conjunct2, rule_format, OF k] f n1 n2
  have "\<exists>m. Some ''1.0.0-beta'' = Some m
      \<and> is_maximum prerelease_world True ''*'' (map fst (versions ?meta)) m"
    by simp
  then have "\<exists>m. fst (resolveVersion prerelease_world fresh ''pre'' ''*'') = Some m
      \<and> is_maximum prerelease_world True ''*'' [''1.0.0-beta'', ''1.0.0-alpha''] m"
    using a by simp
  with a memo t show ?thesis by blast
qed

section \<open>Truncation\<close>




end
